theory Spec2Isabelle
  imports Main "HOL-Library.Word"
begin

section \<open>The worker process of the fuzzer (syz-fuzzer/proc.go)\<close>

text \<open>
  A shallow embedding of \<^verbatim>\<open>syz-fuzzer/proc.go\<close>. Every function of the file
  becomes a function on an explicit state, the record \<open>fuzzer\<close>, which gathers the
  package-level variables the file reads and writes (the three signal sets, the work
  queue, the corpus, the statistics, the flags). A Go panic is the left injection of the
  result type and carries the state at the moment of the panic. The collaborators the
  file calls but does not define (the execution environment, the manager, the program
  model, the random generator) are the fields of the record \<open>world\<close>; each answers as
  a function of a counter, \<open>tick\<close>, so that a flaky environment and a random generator
  are covered: every theorem below holds for every world.

  Not modelled: logging (\<^verbatim>\<open>Logf\<close>), the diagnostic sink selected by
  \<^verbatim>\<open>flagOutput\<close>, and the concurrency gate and the lock \<^verbatim>\<open>signalMu\<close>
  (one worker, sequentially; each locked section is one state update).
\<close>

subsection \<open>Signals (package cover)\<close>

type_synonym signal = "32 word list"
type_synonym sigset = "32 word set"

text \<open>Modelled from the spec: package \<^verbatim>\<open>pkg/cover\<close> is not among the sources. The
  spec gives its operations as pure set algebra over coverage identifiers:
  "contains-novel-element" test, set-difference, union, intersection, and a
  canonicalization into the comparable representation (here: sorted, no repetition).\<close>

definition SignalNew :: "sigset \<Rightarrow> signal \<Rightarrow> bool" where
  "SignalNew base sig = list_ex (\<lambda>e. e \<notin> base) sig"

definition SignalDiff :: "sigset \<Rightarrow> signal \<Rightarrow> signal" where
  "SignalDiff base sig = filter (\<lambda>e. e \<notin> base) sig"

definition SignalAdd :: "sigset \<Rightarrow> signal \<Rightarrow> sigset" where
  "SignalAdd base sig = base \<union> set sig"

definition Canonicalize :: "32 word list \<Rightarrow> 32 word list" where
  "Canonicalize cov = sort (remdups cov)"

definition Intersection :: "32 word list \<Rightarrow> 32 word list \<Rightarrow> 32 word list" where
  "Intersection cov0 cov1 = filter (\<lambda>e. e \<in> set cov1) cov0"

definition Union :: "32 word list \<Rightarrow> 32 word list \<Rightarrow> 32 word list" where
  "Union cov0 cov1 = cov0 @ filter (\<lambda>e. e \<notin> set cov0) cov1"

subsection \<open>Programs, execution options and results (packages prog and ipc)\<close>

text \<open>Modelled from the spec: package \<^verbatim>\<open>prog\<close> is not among the sources. A program
  is the list of its calls; a call has the description of its system call (of which the
  worker reads \<^verbatim>\<open>CallName\<close>) and arguments, which the worker never inspects.
  \<^verbatim>\<open>Clone\<close> is a deep copy, so the identity on values.\<close>

record Syscall =
  CallName :: string

record Call =
  Meta :: Syscall
  Args :: "64 word list"

record Prog =
  Calls :: "Call list"

definition Clone :: "Prog \<Rightarrow> Prog" where
  "Clone prg = prg"

text \<open>Modelled from the spec: the flag constants of \<^verbatim>\<open>pkg/ipc\<close> are not among
  the sources. Each is one bit of the mask \<^verbatim>\<open>opts.Flags\<close>, so the mask is the set of
  the flags that are on: \<^verbatim>\<open>Flags |= f\<close> inserts, \<^verbatim>\<open>Flags &= ^f\<close> removes, and
  \<^verbatim>\<open>Flags&f == 0\<close> is non-membership.\<close>

datatype ExecFlag =
  FlagCollectCover | FlagDedupCover | FlagInjectFault | FlagCollectComps | FlagCollide

record ExecOpts =
  Flags :: "ExecFlag set"
  FaultCall :: int
  FaultNth :: int

record CallInfo =
  Signal :: signal
  Cover :: "32 word list"
  Comps :: "(64 word \<times> 64 word) list"
  FaultInjected :: bool

datatype exec_error = ExecutorFailure | EnvError

text \<open>What \<^verbatim>\<open>env.Exec\<close> returns: output, info, failed, hanged, err. A Go slice
  that may be \<^verbatim>\<open>nil\<close> is an option of a list (\<open>None\<close> is \<^verbatim>\<open>nil\<close>).\<close>

record ExecResult =
  r_output :: string
  r_info :: "CallInfo list option"
  r_failed :: bool
  r_hanged :: bool
  r_err :: "exec_error option"

definition len :: "'a list option \<Rightarrow> nat" where
  "len xs = (case xs of None \<Rightarrow> 0 | Some l \<Rightarrow> length l)"

definition elems :: "'a list option \<Rightarrow> 'a list" where
  "elems xs = (case xs of None \<Rightarrow> [] | Some l \<Rightarrow> l)"

subsection \<open>Work items, statistics, the state\<close>

datatype Stat =
  StatGenerate | StatFuzz | StatCandidate | StatTriage | StatMinimize
  | StatSmash | StatHint | StatSeed

record WorkTriage =
  t_p :: Prog
  t_call :: nat
  t_signal :: signal
  t_candidate :: bool
  t_minimized :: bool

datatype Work =
  Triage WorkTriage
  | Candidate Prog bool
  | Smash Prog nat

record RpcInput =
  rpc_Call :: string
  rpc_Prog :: "8 word list"
  rpc_Signal :: "32 word list"
  rpc_Cover :: "32 word list"

record NewInputArgs =
  a_Name :: string
  a_RpcInput :: RpcInput

text \<open>What the worker does to the outside, in order.\<close>

datatype event =
  EvExec ExecOpts Prog ExecResult
  | EvFreeOSMemory
  | EvSleep
  | EvNewInput NewInputArgs

record fuzzer =
  maxSignal :: sigset
  newSignal :: sigset
  corpusSignal :: sigset
  corpus :: "(Prog \<times> 8 word list) list"
  workQueue :: "Work list"
  stats :: "Stat \<Rightarrow> 64 word"
  execOpts :: ExecOpts
  noCover :: bool
  compsSupported :: bool
  faultInjectionEnabled :: bool
  flagName :: string
  tick :: nat
  trace :: "event list"

datatype panic =
  PanicMsg string
  | PanicErr exec_error
  | PanicRpc
  | IndexOutOfRange

type_synonym 'a result = "(panic \<times> fuzzer) + ('a \<times> fuzzer)"

text \<open>The collaborators. \<open>Exec w n opts prg\<close> is the answer of the execution environment
  to the call made at tick \<open>n\<close>.\<close>

record world =
  Exec :: "nat \<Rightarrow> ExecOpts \<Rightarrow> Prog \<Rightarrow> ExecResult"
  ManagerCall :: "nat \<Rightarrow> NewInputArgs \<Rightarrow> bool"
  Serialize :: "Prog \<Rightarrow> 8 word list"
  Hash :: "8 word list \<Rightarrow> 8 word list"
  Reduce :: "nat \<Rightarrow> Prog \<times> nat \<Rightarrow> (Prog \<times> nat) option"
  ReduceBound :: "Prog \<Rightarrow> nat \<Rightarrow> nat"
  Generate :: "nat \<Rightarrow> Prog"
  Mutate :: "nat \<Rightarrow> Prog \<Rightarrow> Prog list \<Rightarrow> Prog"
  Intn :: "nat \<Rightarrow> nat \<Rightarrow> nat"
  Hints :: "Prog \<Rightarrow> nat \<Rightarrow> (64 word \<times> 64 word) list \<Rightarrow> Prog list"
  Choose :: "Work list \<Rightarrow> nat"

subsection \<open>executeRaw\<close>

text \<open>The label \<^verbatim>\<open>retry\<close> of \<^verbatim>\<open>executeRaw\<close> and the code after it; \<open>ntry\<close>
  is the variable \<^verbatim>\<open>try\<close>. Every pass increments the counter of \<open>stat\<close> and calls
  the environment. \<^verbatim>\<open>failed\<close> is looked at before \<^verbatim>\<open>err\<close>.\<close>

function retry :: "world \<Rightarrow> ExecOpts \<Rightarrow> Prog \<Rightarrow> Stat \<Rightarrow> nat \<Rightarrow> fuzzer
    \<Rightarrow> (CallInfo list option) result" where
  "retry w opts prg stat ntry s =
    (let s1 = s\<lparr>stats := (stats s)(stat := stats s stat + 1)\<rparr>;
         r = Exec w (tick s1) opts prg;
         s2 = s1\<lparr>tick := Suc (tick s1), trace := trace s1 @ [EvExec opts prg r]\<rparr>
     in if r_failed r then Inr (None, s2)
        else (case r_err r of
            Some e \<Rightarrow>
              if e = ExecutorFailure \<or> ntry > 10 then Inl (PanicErr e, s2)
              else retry w opts prg stat (ntry + 1)
                     (s2\<lparr>trace := trace s2 @ [EvFreeOSMemory, EvSleep]\<rparr>)
          | None \<Rightarrow> Inr (r_info r, s2)))"
  by pat_completeness auto
termination
  by (relation "measure (\<lambda>(w, opts, prg, stat, ntry, s). 11 - ntry)") auto

definition executeRaw :: "world \<Rightarrow> ExecOpts \<Rightarrow> Prog \<Rightarrow> Stat \<Rightarrow> fuzzer
    \<Rightarrow> (CallInfo list option) result" where
  "executeRaw w opts prg stat s =
    (if FlagDedupCover \<notin> Flags opts then Inl (PanicMsg ''dedup cover is not enabled'', s)
     else retry w opts prg stat 0 s)"


subsection \<open>The work queue and the corpus (workqueue.go, fuzzer.go)\<close>

text \<open>Modelled from the spec: the work queue and the corpus accessors are not among the
  sources. The spec gives a prioritized queue with \<^verbatim>\<open>enqueue\<close> and a non-blocking
  \<^verbatim>\<open>dequeue\<close> that yields an item or none, and an append-only corpus of which a
  snapshot is the sequence of its programs. Which waiting item comes out first is left
  to the world (\<open>Choose\<close>), so every priority order is covered.\<close>

definition enqueue :: "Work list \<Rightarrow> Work \<Rightarrow> Work list" where
  "enqueue q item = q @ [item]"

definition dequeue :: "world \<Rightarrow> Work list \<Rightarrow> (Work \<times> Work list) option" where
  "dequeue w q =
    (if q = [] then None
     else let k = Choose w q mod length q in Some (q ! k, take k q @ drop (Suc k) q))"

definition corpusSnapshot :: "fuzzer \<Rightarrow> Prog list" where
  "corpusSnapshot s = map fst (corpus s)"

definition addInputToCorpus :: "Prog \<Rightarrow> 8 word list \<Rightarrow> fuzzer \<Rightarrow> fuzzer" where
  "addInputToCorpus prg sg s = s\<lparr>corpus := corpus s @ [(prg, sg)]\<rparr>"

text \<open>\<^verbatim>\<open>xs[i]\<close> on a slice: Go panics when \<open>i\<close> is out of range.\<close>

definition index :: "'a list option \<Rightarrow> nat \<Rightarrow> 'a option" where
  "index xs i = (if i < len xs then Some (elems xs ! i) else None)"

subsection \<open>execute\<close>

text \<open>The loop over \<^verbatim>\<open>info\<close> at the end of \<^verbatim>\<open>execute\<close>; \<open>i\<close> is the index of
  the call, \<open>ci\<close> its result. The two \<^verbatim>\<open>SignalAdd\<close> stand in one locked section.\<close>

fun hook :: "Prog \<Rightarrow> bool \<Rightarrow> bool \<Rightarrow> nat \<Rightarrow> CallInfo list \<Rightarrow> fuzzer \<Rightarrow> fuzzer" where
  "hook prg minimized candidate i [] s = s"
| "hook prg minimized candidate i (ci # rest) s =
    (if \<not> SignalNew (maxSignal s) (Signal ci) then hook prg minimized candidate (Suc i) rest s
     else
       let diff = SignalDiff (maxSignal s) (Signal ci);
           s1 = s\<lparr>maxSignal := SignalAdd (maxSignal s) diff\<rparr>;
           s2 = s1\<lparr>newSignal := SignalAdd (newSignal s1) diff\<rparr>;
           s3 = s2\<lparr>workQueue := enqueue (workQueue s2)
                  (Triage \<lparr>t_p = Clone prg, t_call = i, t_signal = Signal ci,
                     t_candidate = candidate, t_minimized = minimized\<rparr>)\<rparr>
       in hook prg minimized candidate (Suc i) rest s3)"

text \<open>The options \<^verbatim>\<open>execute\<close> hands to \<^verbatim>\<open>executeRaw\<close>: a copy of
  \<^verbatim>\<open>execOpts\<close> with the comparisons flag set and the collide flag cleared on
  demand.\<close>

definition exec_opts :: "ExecOpts \<Rightarrow> bool \<Rightarrow> bool \<Rightarrow> ExecOpts" where
  "exec_opts eo needComps noCollide =
    (let opts1 = (if needComps then eo\<lparr>Flags := insert FlagCollectComps (Flags eo)\<rparr> else eo)
     in if noCollide then opts1\<lparr>Flags := Flags opts1 - {FlagCollide}\<rparr> else opts1)"

definition execute :: "world \<Rightarrow> ExecOpts \<Rightarrow> Prog \<Rightarrow> bool \<Rightarrow> bool \<Rightarrow> bool \<Rightarrow> bool \<Rightarrow> Stat
    \<Rightarrow> fuzzer \<Rightarrow> (CallInfo list option) result" where
  "execute w eo prg needComps minimized candidate noCollide stat s =
    (if needComps \<and> \<not> compsSupported s
     then Inl (PanicMsg ''compsSupported==false and execute() called with needComps'', s)
     else
       case executeRaw w (exec_opts eo needComps noCollide) prg stat s of
         Inl e \<Rightarrow> Inl e
       | Inr (info, s') \<Rightarrow> Inr (info, hook prg minimized candidate 0 (elems info) s'))"

subsection \<open>triageInput\<close>

text \<open>The loop of the branch \<^verbatim>\<open>item.minimized\<close>: up to three runs, the first one
  with coverage for the call wins. The counter is the number of passes left.\<close>

fun harvest :: "world \<Rightarrow> ExecOpts \<Rightarrow> WorkTriage \<Rightarrow> nat \<Rightarrow> fuzzer \<Rightarrow> (32 word list) result" where
  "harvest w opts item 0 s = Inr ([], s)"
| "harvest w opts item (Suc n) s =
    (case executeRaw w opts (t_p item) StatTriage s of
       Inl e \<Rightarrow> Inl e
     | Inr (info, s') \<Rightarrow>
         if len info = 0 then harvest w opts item n s'
         else (case index info (t_call item) of
             None \<Rightarrow> Inl (IndexOutOfRange, s')
           | Some ci \<Rightarrow>
               if length (Cover ci) = 0 then harvest w opts item n s'
               else Inr (Cover ci, s')))"

text \<open>The loop of the other branch. It leaves in three ways: the call was not executed
  twice (line 131), the signal that reproduces is empty (line 139), or three passes are
  done.\<close>

datatype deflake = GiveUp | Vanished | Stable signal "32 word list"

fun deflake_loop :: "world \<Rightarrow> ExecOpts \<Rightarrow> WorkTriage \<Rightarrow> nat \<Rightarrow> bool \<Rightarrow> signal
    \<Rightarrow> 32 word list \<Rightarrow> fuzzer \<Rightarrow> deflake result" where
  "deflake_loop w opts item 0 notexecuted novel inputCover s =
     Inr (Stable novel inputCover, s)"
| "deflake_loop w opts item (Suc n) notexecuted novel inputCover s =
    (case executeRaw w opts (t_p item) StatTriage s of
       Inl e \<Rightarrow> Inl e
     | Inr (info, s') \<Rightarrow>
         if len info = 0 then
           (if notexecuted then Inr (GiveUp, s')
            else deflake_loop w opts item n True novel inputCover s')
         else (case index info (t_call item) of
             None \<Rightarrow> Inl (IndexOutOfRange, s')
           | Some ci \<Rightarrow>
               if length (Signal ci) = 0 then
                 (if notexecuted then Inr (GiveUp, s')
                  else deflake_loop w opts item n True novel inputCover s')
               else
                 let novel' = Intersection novel (Canonicalize (Signal ci)) in
                 if length novel' = 0 then Inr (Vanished, s')
                 else deflake_loop w opts item n notexecuted novel'
                        (if length inputCover = 0 then Cover ci
                         else Union inputCover (Cover ci)) s'))"

text \<open>The predicate handed to \<^verbatim>\<open>prog.Minimize\<close> (lines 148 to 161).\<close>

definition triage_pred :: "world \<Rightarrow> signal \<Rightarrow> Prog \<Rightarrow> nat \<Rightarrow> fuzzer \<Rightarrow> bool result" where
  "triage_pred w novel p1 call1 s =
    (case execute w (execOpts s) p1 False False False True StatMinimize s of
       Inl e \<Rightarrow> Inl e
     | Inr (info, s') \<Rightarrow>
         if len info = 0 then Inr (False, s')
         else (case index info call1 of
             None \<Rightarrow> Inl (IndexOutOfRange, s')
           | Some ci \<Rightarrow>
               if length (Signal ci) = 0 then Inr (False, s')
               else
                 let sg = Canonicalize (Signal ci) in
                 if length (Intersection novel sg) \<noteq> length novel then Inr (False, s')
                 else Inr (True, s')))"

text \<open>Modelled from the spec: \<^verbatim>\<open>prog.Minimize\<close> is not among the sources. The spec
  gives a predicate-driven reduction: a candidate reduced program is derived from the
  current one, the predicate is asked, and the reduction is kept only if the predicate
  accepts it. The world supplies the candidates (\<open>Reduce w k cur\<close> is the candidate of
  step \<open>k\<close>, none when the reduction is over) and a bound on the number of steps.\<close>

fun Minimize_steps :: "world \<Rightarrow> (Prog \<Rightarrow> nat \<Rightarrow> fuzzer \<Rightarrow> bool result) \<Rightarrow> nat \<Rightarrow> nat
    \<Rightarrow> Prog \<times> nat \<Rightarrow> fuzzer \<Rightarrow> (Prog \<times> nat) result" where
  "Minimize_steps w pred 0 k cur s = Inr (cur, s)"
| "Minimize_steps w pred (Suc n) k cur s =
    (case Reduce w k cur of
       None \<Rightarrow> Inr (cur, s)
     | Some cand \<Rightarrow>
         (case pred (fst cand) (snd cand) s of
            Inl e \<Rightarrow> Inl e
          | Inr (ok, s') \<Rightarrow> Minimize_steps w pred n (Suc k) (if ok then cand else cur) s'))"

definition Minimize :: "world \<Rightarrow> Prog \<Rightarrow> nat \<Rightarrow> (Prog \<Rightarrow> nat \<Rightarrow> fuzzer \<Rightarrow> bool result)
    \<Rightarrow> fuzzer \<Rightarrow> (Prog \<times> nat) result" where
  "Minimize w p0 callIndex0 pred s =
     Minimize_steps w pred (ReduceBound w p0 callIndex0) 0 (p0, callIndex0) s"

text \<open>Lines 164 to 189: the report to the manager, the corpus, the Smash item.
  \<open>callMeta\<close> is the variable \<^verbatim>\<open>call\<close>, read at line 106 before any minimization.\<close>

definition publish :: "world \<Rightarrow> WorkTriage \<Rightarrow> Syscall \<Rightarrow> 32 word list \<Rightarrow> fuzzer \<Rightarrow> unit result" where
  "publish w item callMeta inputCover s =
    (let bytes = Serialize w (t_p item);
         sg = Hash w bytes;
         a = \<lparr>a_Name = flagName s,
              a_RpcInput = \<lparr>rpc_Call = CallName callMeta, rpc_Prog = bytes,
                 rpc_Signal = Canonicalize (t_signal item), rpc_Cover = inputCover\<rparr>\<rparr>;
         s1 = s\<lparr>tick := Suc (tick s), trace := trace s @ [EvNewInput a]\<rparr>
     in if ManagerCall w (tick s) a then Inl (PanicRpc, s1)
        else
          let s2 = s1\<lparr>corpusSignal := SignalAdd (corpusSignal s1) (t_signal item)\<rparr>;
              s3 = addInputToCorpus (t_p item) sg s2
          in if \<not> t_minimized item
             then Inr ((), s3\<lparr>workQueue := enqueue (workQueue s3)
                                 (Smash (t_p item) (t_call item))\<rparr>)
             else Inr ((), s3))"

text \<open>Lines 110 to 112: the options of the triage runs.\<close>

definition triage_opts :: "ExecOpts \<Rightarrow> ExecOpts" where
  "triage_opts eo = eo\<lparr>Flags := insert FlagCollectCover (Flags eo) - {FlagCollide}\<rparr>"

definition triageInput :: "world \<Rightarrow> WorkTriage \<Rightarrow> fuzzer \<Rightarrow> unit result" where
  "triageInput w item s =
    (if noCover s
     then Inl (PanicMsg ''should not be called when coverage is disabled'', s)
     else
       let novel0 = SignalDiff (corpusSignal s) (t_signal item) in
       if length novel0 = 0 then Inr ((), s)
       else
         let novel = Canonicalize novel0 in
         (case index (Some (Calls (t_p item))) (t_call item) of
            None \<Rightarrow> Inl (IndexOutOfRange, s)
          | Some c \<Rightarrow>
              let callMeta = Meta c;
                  opts = triage_opts (execOpts s)
              in if t_minimized item then
                   (case harvest w opts item 3 s of
                      Inl e \<Rightarrow> Inl e
                    | Inr (inputCover, s1) \<Rightarrow> publish w item callMeta inputCover s1)
                 else
                   (case deflake_loop w opts item 3 False novel [] s of
                      Inl e \<Rightarrow> Inl e
                    | Inr (GiveUp, s1) \<Rightarrow> Inr ((), s1)
                    | Inr (Vanished, s1) \<Rightarrow> Inr ((), s1)
                    | Inr (Stable novel' inputCover, s1) \<Rightarrow>
                        (case Minimize w (t_p item) (t_call item) (triage_pred w novel') s1 of
                           Inl e \<Rightarrow> Inl e
                         | Inr ((p', call'), s2) \<Rightarrow>
                             publish w (item\<lparr>t_p := p', t_call := call'\<rparr>)
                               callMeta inputCover s2))))"


subsection \<open>smashInput, failCall, executeHintSeed\<close>

text \<open>The loop of \<^verbatim>\<open>failCall\<close>, entered with \<open>nth' = 0\<close>; \<open>nth'\<close> is the variable \<^verbatim>\<open>nth\<close>.\<close>

text \<open>Lines 211 to 214: the options of the trial \<open>nth'\<close> on the call \<open>call\<close>.\<close>

definition fault_opts :: "ExecOpts \<Rightarrow> nat \<Rightarrow> nat \<Rightarrow> ExecOpts" where
  "fault_opts eo call nth' =
     eo\<lparr>Flags := insert FlagInjectFault (Flags eo), FaultCall := int call, FaultNth := int nth'\<rparr>"

function failCall_from :: "world \<Rightarrow> Prog \<Rightarrow> nat \<Rightarrow> nat \<Rightarrow> fuzzer \<Rightarrow> unit result" where
  "failCall_from w prg call nth' s =
    (if nth' < 100 then
       (let opts = fault_opts (execOpts s) call nth'
        in case executeRaw w opts prg StatSmash s of
             Inl e \<Rightarrow> Inl e
           | Inr (info, s') \<Rightarrow>
               if info \<noteq> None \<and> len info > call \<and> \<not> FaultInjected (elems info ! call)
               then Inr ((), s')
               else failCall_from w prg call (nth' + 1) s')
     else Inr ((), s))"
  by pat_completeness auto
termination
  by (relation "measure (\<lambda>(w, prg, call, nth', s). 100 - nth')") auto

definition failCall :: "world \<Rightarrow> Prog \<Rightarrow> nat \<Rightarrow> fuzzer \<Rightarrow> unit result" where
  "failCall w prg call s = failCall_from w prg call 0 s"

text \<open>Modelled from the spec: \<^verbatim>\<open>Mutate\<close> and \<^verbatim>\<open>MutateWithHints\<close> of package
  \<^verbatim>\<open>prog\<close> are not among the sources. A mutation is a draw of the world at the
  current tick; \<open>Hints w prg call comps\<close> is the list of the mutants that
  \<^verbatim>\<open>MutateWithHints\<close> hands to its callback, in order.\<close>

fun smash_mutations :: "world \<Rightarrow> Prog \<Rightarrow> Prog list \<Rightarrow> nat \<Rightarrow> fuzzer \<Rightarrow> unit result" where
  "smash_mutations w prg snap 0 s = Inr ((), s)"
| "smash_mutations w prg snap (Suc n) s =
    (let p1 = Mutate w (tick s) (Clone prg) snap;
         s1 = s\<lparr>tick := Suc (tick s)\<rparr>
     in case execute w (execOpts s1) p1 False False False False StatSmash s1 of
          Inl e \<Rightarrow> Inl e
        | Inr (info, s2) \<Rightarrow> smash_mutations w prg snap n s2)"

fun hint_mutants :: "world \<Rightarrow> Prog list \<Rightarrow> fuzzer \<Rightarrow> unit result" where
  "hint_mutants w [] s = Inr ((), s)"
| "hint_mutants w (m # ms) s =
    (case execute w (execOpts s) m False False False False StatHint s of
       Inl e \<Rightarrow> Inl e
     | Inr (info, s') \<Rightarrow> hint_mutants w ms s')"

definition executeHintSeed :: "world \<Rightarrow> Prog \<Rightarrow> nat \<Rightarrow> fuzzer \<Rightarrow> unit result" where
  "executeHintSeed w prg call s =
    (case execute w (execOpts s) prg True False False True StatSeed s of
       Inl e \<Rightarrow> Inl e
     | Inr (info, s1) \<Rightarrow>
         if info = None then Inr ((), s1)
         else (case index info call of
             None \<Rightarrow> Inl (IndexOutOfRange, s1)
           | Some ci \<Rightarrow> hint_mutants w (Hints w prg call (Comps ci)) s1))"

definition smashInput :: "world \<Rightarrow> Prog \<Rightarrow> nat \<Rightarrow> fuzzer \<Rightarrow> unit result" where
  "smashInput w prg call s =
    (case (if faultInjectionEnabled s then failCall w prg call s else Inr ((), s)) of
       Inl e \<Rightarrow> Inl e
     | Inr (u, s1) \<Rightarrow>
         let snap = corpusSnapshot s1 in
         (case smash_mutations w prg snap 100 s1 of
            Inl e \<Rightarrow> Inl e
          | Inr (u', s2) \<Rightarrow>
              if compsSupported s2 then executeHintSeed w prg call s2 else Inr ((), s2)))"

subsection \<open>loop\<close>

text \<open>Which branch an idle pass of the loop takes, and what it runs.\<close>

datatype idle_path = PathGenerate | PathFuzz

text \<open>One pass of the loop, with the value \<open>i\<close> of the counter. It returns the branch
  taken when the queue was empty. \<^verbatim>\<open>i%100 == 0\<close> holds exactly when 100 divides
  \<open>i\<close>, whatever the sign. \<^verbatim>\<open>rnd.Intn(n)\<close> is a draw of the world brought into
  \<open>[0, n)\<close>; \<^verbatim>\<open>target.Generate\<close> is a draw of the world. The type switch has
  no other case: \<open>Work\<close> has the three variants the switch names.\<close>

definition loop_body :: "world \<Rightarrow> int \<Rightarrow> fuzzer \<Rightarrow> (idle_path option) result" where
  "loop_body w i s =
    (case dequeue w (workQueue s) of
       Some (item, q') \<Rightarrow>
         let s0 = s\<lparr>workQueue := q'\<rparr> in
         (case (case item of
                  Triage t \<Rightarrow> triageInput w t s0
                | Candidate prg minimized \<Rightarrow>
                    (case execute w (execOpts s0) prg False minimized True False
                            StatCandidate s0 of
                       Inl e \<Rightarrow> Inl e
                     | Inr (info, s1) \<Rightarrow> Inr ((), s1))
                | Smash prg call \<Rightarrow> smashInput w prg call s0) of
            Inl e \<Rightarrow> Inl e
          | Inr (u, s1) \<Rightarrow> Inr (None, s1))
     | None \<Rightarrow>
         let snap = corpusSnapshot s in
         if length snap = 0 \<or> i mod 100 = 0 then
           (let prg = Generate w (tick s);
                s1 = s\<lparr>tick := Suc (tick s)\<rparr>
            in case execute w (execOpts s1) prg False False False False StatGenerate s1 of
                 Inl e \<Rightarrow> Inl e
               | Inr (info, s2) \<Rightarrow> Inr (Some PathGenerate, s2))
         else
           (let prg0 = Clone (snap ! (Intn w (tick s) (length snap) mod length snap));
                prg = Mutate w (Suc (tick s)) prg0 snap;
                s1 = s\<lparr>tick := Suc (Suc (tick s))\<rparr>
            in case execute w (execOpts s1) prg False False False False StatFuzz s1 of
                 Inl e \<Rightarrow> Inl e
               | Inr (info, s2) \<Rightarrow> Inr (Some PathFuzz, s2)))"

text \<open>The first \<open>n\<close> passes of the loop, from the counter value \<open>i\<close>. The loop itself
  never returns; a panic ends it.\<close>

fun loop :: "world \<Rightarrow> nat \<Rightarrow> int \<Rightarrow> fuzzer \<Rightarrow> unit result" where
  "loop w 0 i s = Inr ((), s)"
| "loop w (Suc n) i s =
    (case loop_body w i s of
       Inl e \<Rightarrow> Inl e
     | Inr (path, s') \<Rightarrow> loop w n (i + 1) s')"


section \<open>What a run leaves behind\<close>

text \<open>The state a result carries, whether the function returned or panicked.\<close>

definition final :: "'a result \<Rightarrow> fuzzer" where
  "final r = (case r of Inl (e, s) \<Rightarrow> s | Inr (v, s) \<Rightarrow> s)"

text \<open>The events between two states of one run, and what is counted in them: the calls
  of the environment (attempts), the one-second sleeps (one per retry), the reports to
  the manager.\<close>

definition new_events :: "fuzzer \<Rightarrow> fuzzer \<Rightarrow> event list" where
  "new_events s s' = drop (length (trace s)) (trace s')"

fun is_exec :: "event \<Rightarrow> bool" where
  "is_exec (EvExec opts prg r) = True"
| "is_exec ev = False"

fun is_report :: "event \<Rightarrow> bool" where
  "is_report (EvNewInput a) = True"
| "is_report ev = False"

definition attempts :: "fuzzer \<Rightarrow> fuzzer \<Rightarrow> nat" where
  "attempts s s' = length (filter is_exec (new_events s s'))"

definition retries :: "fuzzer \<Rightarrow> fuzzer \<Rightarrow> nat" where
  "retries s s' = count_list (new_events s s') EvSleep"

definition reports :: "fuzzer \<Rightarrow> fuzzer \<Rightarrow> event list" where
  "reports s s' = filter is_report (new_events s s')"

text \<open>The events of one \<^verbatim>\<open>executeRaw\<close> that makes \<open>n\<close> retries from tick \<open>t\<close>: an
  attempt, then \<open>n\<close> times the memory release, the sleep and the next attempt.\<close>

fun run_trace :: "world \<Rightarrow> ExecOpts \<Rightarrow> Prog \<Rightarrow> nat \<Rightarrow> nat \<Rightarrow> event list" where
  "run_trace w opts prg t 0 = [EvExec opts prg (Exec w t opts prg)]"
| "run_trace w opts prg t (Suc n) =
     EvExec opts prg (Exec w t opts prg) # EvFreeOSMemory # EvSleep
       # run_trace w opts prg (Suc t) n"

definition after_run :: "world \<Rightarrow> ExecOpts \<Rightarrow> Prog \<Rightarrow> Stat \<Rightarrow> nat \<Rightarrow> fuzzer \<Rightarrow> fuzzer" where
  "after_run w opts prg stat n s =
     s\<lparr>stats := (stats s)(stat := stats s stat + of_nat (Suc n)),
       tick := tick s + Suc n,
       trace := trace s @ run_trace w opts prg (tick s) n\<rparr>"

text \<open>An answer of the environment that ends \<^verbatim>\<open>executeRaw\<close> without a retry and
  without a panic, and the \<^verbatim>\<open>info\<close> that \<^verbatim>\<open>executeRaw\<close> then returns. An
  answer that is retried: an error that is not an executor failure.\<close>

definition settled :: "ExecResult \<Rightarrow> bool" where
  "settled r = (r_failed r \<or> r_err r = None)"

definition result_info :: "ExecResult \<Rightarrow> CallInfo list option" where
  "result_info r = (if r_failed r then None else r_info r)"

definition transient :: "ExecResult \<Rightarrow> bool" where
  "transient r = (\<not> r_failed r \<and> r_err r = Some EnvError)"

section \<open>Closed forms, observations and concrete inputs\<close>

text \<open>The closed form of \<^verbatim>\<open>executeRaw\<close> when it makes \<open>n\<close> retries: the answer to
  the last attempt decides between a return and a panic.\<close>

definition run_result :: "world \<Rightarrow> ExecOpts \<Rightarrow> Prog \<Rightarrow> Stat \<Rightarrow> nat \<Rightarrow> fuzzer
    \<Rightarrow> (CallInfo list option) result" where
  "run_result w opts prg stat n s =
    (let r = Exec w (tick s + n) opts prg in
     if settled r then Inr (result_info r, after_run w opts prg stat n s)
     else Inl (PanicErr (the (r_err r)), after_run w opts prg stat n s))"

text \<open>Concrete inputs for the closed theorems: a program of two calls, options with
  the deduplication flag, an initial state, and worlds built from their environment
  alone (the manager accepts every report, nothing is reduced, mutated or hinted).\<close>

definition answer :: "CallInfo list option \<Rightarrow> bool \<Rightarrow> exec_error option \<Rightarrow> ExecResult" where
  "answer info failed e =
     \<lparr>r_output = [], r_info = info, r_failed = failed, r_hanged = False, r_err = e\<rparr>"

definition world_of :: "(nat \<Rightarrow> ExecOpts \<Rightarrow> Prog \<Rightarrow> ExecResult) \<Rightarrow> world" where
  "world_of ex =
     \<lparr>Exec = ex, ManagerCall = (\<lambda>t a. False), Serialize = (\<lambda>prg. []), Hash = (\<lambda>bytes. bytes),
      Reduce = (\<lambda>k cur. None), ReduceBound = (\<lambda>prg c. 0), Generate = (\<lambda>t. \<lparr>Calls = []\<rparr>),
      Mutate = (\<lambda>t prg snap. prg), Intn = (\<lambda>t n. 0), Hints = (\<lambda>prg c comps. []),
      Choose = (\<lambda>q. 0)\<rparr>"

definition prg0 :: Prog where
  "prg0 = \<lparr>Calls = [\<lparr>Meta = \<lparr>CallName = ''open''\<rparr>, Args = []\<rparr>,
                    \<lparr>Meta = \<lparr>CallName = ''read''\<rparr>, Args = []\<rparr>]\<rparr>"

definition opts0 :: ExecOpts where
  "opts0 = \<lparr>Flags = {FlagDedupCover, FlagCollide}, FaultCall = 0, FaultNth = 0\<rparr>"

definition s0 :: fuzzer where
  "s0 = \<lparr>maxSignal = {}, newSignal = {}, corpusSignal = {}, corpus = [], workQueue = [],
          stats = (\<lambda>st. 0), execOpts = opts0, noCover = False, compsSupported = False,
          faultInjectionEnabled = True, flagName = ''vm-0'', tick = 0, trace = []\<rparr>"

text \<open>An environment that fails eleven times with a retryable error and then answers;
  one that always fails with a retryable error.\<close>

definition late_world :: world where
  "late_world = world_of (\<lambda>t opts prg.
      if t < 11 then answer None False (Some EnvError) else answer (Some []) False None)"

definition broken_world :: world where
  "broken_world = world_of (\<lambda>t opts prg. answer None False (Some EnvError))"

text \<open>An environment that reports the failed flag, with per-call results beside it.\<close>

definition bug_world :: world where
  "bug_world = world_of (\<lambda>t opts prg.
      answer (Some [\<lparr>Signal = [1, 2], Cover = [1, 2], Comps = [], FaultInjected = False\<rparr>])
        True None)"

text \<open>For \<^verbatim>\<open>failCall\<close>: the test of line 216 (the result reports that no fault was
  injected into the call), the trial index of an attempt, the trial indices of a run in
  order, and the answer of the environment to the \<open>j\<close>-th trial of a run that starts at
  \<open>nth0\<close> in the state \<open>s\<close> when no trial before it was retried.\<close>

definition no_fault :: "CallInfo list option \<Rightarrow> nat \<Rightarrow> bool" where
  "no_fault info call = (info \<noteq> None \<and> len info > call \<and> \<not> FaultInjected (elems info ! call))"

fun fault_nth :: "event \<Rightarrow> int" where
  "fault_nth (EvExec opts prg r) = FaultNth opts"
| "fault_nth ev = - 1"

definition trials :: "fuzzer \<Rightarrow> fuzzer \<Rightarrow> int list" where
  "trials s s' = map fault_nth (filter is_exec (new_events s s'))"

definition trial_answer :: "world \<Rightarrow> fuzzer \<Rightarrow> Prog \<Rightarrow> nat \<Rightarrow> nat \<Rightarrow> nat \<Rightarrow> ExecResult" where
  "trial_answer w s prg call nth0 j =
     Exec w (tick s + j) (fault_opts (execOpts s) call (nth0 + j)) prg"

text \<open>A call with five faultable points: the fault registers for the trials 0 to 4.\<close>

definition five_points_world :: world where
  "five_points_world = world_of (\<lambda>t opts prg.
      answer (Some [\<lparr>Signal = [], Cover = [], Comps = [], FaultInjected = (FaultNth opts < 5)\<rparr>])
        False None)"

text \<open>A run that only executed programs: the shared signal sets, the corpus, the queue
  and the configuration are as before, and no report went to the manager.\<close>

definition quiet :: "fuzzer \<Rightarrow> fuzzer \<Rightarrow> bool" where
  "quiet s s' =
    (maxSignal s' = maxSignal s \<and> newSignal s' = newSignal s
     \<and> corpusSignal s' = corpusSignal s \<and> corpus s' = corpus s
     \<and> workQueue s' = workQueue s \<and> execOpts s' = execOpts s
     \<and> noCover s' = noCover s \<and> compsSupported s' = compsSupported s
     \<and> faultInjectionEnabled s' = faultInjectionEnabled s \<and> flagName s' = flagName s
     \<and> (\<exists>evs. trace s' = trace s @ evs \<and> filter is_report evs = []))"

text \<open>For the triage runs of an item that is not minimized. The call was not executed
  (the test of line 128, with the index in range); the call was executed and its signal
  has all of \<open>novel\<close>; the novel signal of line 104; the loop of lines 125 to 146 as
  \<^verbatim>\<open>triageInput\<close> enters it; the \<^verbatim>\<open>info\<close> of the \<open>j\<close>-th run when no attempt
  is retried; two of the three runs did not execute the call.\<close>

definition missed :: "CallInfo list option \<Rightarrow> nat \<Rightarrow> bool" where
  "missed info call =
     (len info = 0 \<or> (call < len info \<and> length (Signal (elems info ! call)) = 0))"

definition hits :: "signal \<Rightarrow> CallInfo list option \<Rightarrow> nat \<Rightarrow> bool" where
  "hits novel info call =
     (call < len info \<and> length (Signal (elems info ! call)) \<noteq> 0
      \<and> set novel \<subseteq> set (Signal (elems info ! call)))"

definition novel_of :: "fuzzer \<Rightarrow> WorkTriage \<Rightarrow> signal" where
  "novel_of s item = Canonicalize (SignalDiff (corpusSignal s) (t_signal item))"

definition deflake_run :: "world \<Rightarrow> WorkTriage \<Rightarrow> fuzzer \<Rightarrow> deflake result" where
  "deflake_run w item s =
     deflake_loop w (triage_opts (execOpts s)) item 3 False (novel_of s item) [] s"

definition run_info :: "world \<Rightarrow> fuzzer \<Rightarrow> WorkTriage \<Rightarrow> nat \<Rightarrow> CallInfo list option" where
  "run_info w s item j =
     result_info (Exec w (tick s + j) (triage_opts (execOpts s)) (t_p item))"

definition two_missed :: "world \<Rightarrow> fuzzer \<Rightarrow> WorkTriage \<Rightarrow> bool" where
  "two_missed w s item =
     ((missed (run_info w s item 0) (t_call item) \<and> missed (run_info w s item 1) (t_call item))
      \<or> (missed (run_info w s item 0) (t_call item) \<and> missed (run_info w s item 2) (t_call item))
      \<or> (missed (run_info w s item 1) (t_call item) \<and> missed (run_info w s item 2) (t_call item)))"

text \<open>A triage item for the first call of the program, with the captured signal
  \<open>[1, 2]\<close>; an environment whose signal is different in every run; one that executes
  the call in the second run only.\<close>

definition item0 :: WorkTriage where
  "item0 = \<lparr>t_p = prg0, t_call = 0, t_signal = [1, 2], t_candidate = False,
             t_minimized = False\<rparr>"

definition sig_info :: "signal \<Rightarrow> CallInfo list option" where
  "sig_info sg = Some [\<lparr>Signal = sg, Cover = sg, Comps = [], FaultInjected = False\<rparr>]"

definition drifting_world :: world where
  "drifting_world = world_of (\<lambda>t opts prg. answer (sig_info [of_nat t + 1]) False None)"

definition on_off_world :: world where
  "on_off_world = world_of (\<lambda>t opts prg.
      answer (if t = 1 then sig_info [1, 2, 3] else Some []) False None)"

text \<open>For the loop: the result of an idle pass that ran \<^verbatim>\<open>execute\<close> on the branch
  \<open>path\<close>, and the branch a pass took.\<close>

definition path_result :: "idle_path \<Rightarrow> (CallInfo list option) result \<Rightarrow> (idle_path option) result" where
  "path_result path r = (case r of Inl e \<Rightarrow> Inl e | Inr (info, s') \<Rightarrow> Inr (Some path, s'))"

definition path_of :: "(idle_path option) result \<Rightarrow> idle_path option" where
  "path_of r = (case r of Inl e \<Rightarrow> None | Inr (path, s') \<Rightarrow> path)"

text \<open>An environment that answers every run with the signal \<open>[1, 2, 3]\<close> for the first
  call.\<close>

definition steady_world :: world where
  "steady_world = world_of (\<lambda>t opts prg. answer (sig_info [1, 2, 3]) False None)"

text \<open>For minimization: an execution of \<open>prg\<close> that returned results in which the
  canonicalized signal of the call \<open>call\<close> has all of \<open>novel\<close> (its intersection with
  \<open>novel\<close> is \<open>novel\<close>); and a state whose trace continues the trace of another.\<close>

fun observed :: "signal \<Rightarrow> Prog \<Rightarrow> nat \<Rightarrow> event \<Rightarrow> bool" where
  "observed novel prg call (EvExec opts p r) =
     (p = prg \<and> \<not> r_failed r \<and> r_err r = None \<and> call < len (r_info r)
      \<and> Intersection novel (Canonicalize (Signal (elems (r_info r) ! call))) = novel
      \<and> set novel \<subseteq> set (Canonicalize (Signal (elems (r_info r) ! call))))"
| "observed novel prg call ev = False"

definition extends :: "fuzzer \<Rightarrow> fuzzer \<Rightarrow> bool" where
  "extends s s' = (\<exists>evs. trace s' = trace s @ evs)"

text \<open>A reduced program of one call, and a world in which minimization proposes it once.\<close>

definition prg1 :: Prog where
  "prg1 = \<lparr>Calls = [\<lparr>Meta = \<lparr>CallName = ''open''\<rparr>, Args = []\<rparr>]\<rparr>"

definition reducing_world :: world where
  "reducing_world = steady_world
     \<lparr>Reduce := (\<lambda>k cur. if k = 0 then Some (prg1, 0) else None),
      ReduceBound := (\<lambda>prg c. 1)\<rparr>"

text \<open>The invariant of the signal sets. Corpus signal and new signal are within max
  signal, and so is the signal of every triage item that waits in the queue: the loop
  over the results adds the signal of a call to max signal before it queues the item,
  and max signal never shrinks. \<open>grows s s'\<close>: the invariant holds in \<open>s'\<close> and max
  signal has not lost anything since \<open>s\<close>.\<close>

fun covered :: "fuzzer \<Rightarrow> Work \<Rightarrow> bool" where
  "covered s (Triage t) = (set (t_signal t) \<subseteq> maxSignal s)"
| "covered s item = True"

definition signal_inv :: "fuzzer \<Rightarrow> bool" where
  "signal_inv s =
     (corpusSignal s \<subseteq> maxSignal s \<and> newSignal s \<subseteq> maxSignal s
      \<and> list_all (covered s) (workQueue s))"

definition grows :: "fuzzer \<Rightarrow> fuzzer \<Rightarrow> bool" where
  "grows s s' = (signal_inv s' \<and> maxSignal s \<subseteq> maxSignal s')"

section \<open>Proofs\<close>

declare retry.simps [simp del]

declare failCall_from.simps [simp del]

subsection \<open>executeRaw: the retries in closed form\<close>

lemma final_simps [simp]: "final (Inl (e, s)) = s" "final (Inr (v, s)) = s"
  by (simp_all add: final_def)

lemma after_run_fields [simp]:
  "maxSignal (after_run w opts prg stat n s) = maxSignal s"
  "newSignal (after_run w opts prg stat n s) = newSignal s"
  "corpusSignal (after_run w opts prg stat n s) = corpusSignal s"
  "corpus (after_run w opts prg stat n s) = corpus s"
  "workQueue (after_run w opts prg stat n s) = workQueue s"
  "execOpts (after_run w opts prg stat n s) = execOpts s"
  "noCover (after_run w opts prg stat n s) = noCover s"
  "compsSupported (after_run w opts prg stat n s) = compsSupported s"
  "faultInjectionEnabled (after_run w opts prg stat n s) = faultInjectionEnabled s"
  "flagName (after_run w opts prg stat n s) = flagName s"
  "tick (after_run w opts prg stat n s) = tick s + Suc n"
  "trace (after_run w opts prg stat n s) = trace s @ run_trace w opts prg (tick s) n"
  "stats (after_run w opts prg stat n s) = (stats s)(stat := stats s stat + of_nat (Suc n))"
  by (simp_all add: after_run_def)

lemma after_run_0:
  "s\<lparr>stats := (stats s)(stat := stats s stat + 1), tick := Suc (tick s),
      trace := trace s @ [EvExec opts prg (Exec w (tick s) opts prg)]\<rparr>
   = after_run w opts prg stat 0 s"
  by (simp add: after_run_def)

lemma after_run_Suc:
  "after_run w opts prg stat n
     (s\<lparr>stats := (stats s)(stat := stats s stat + 1), tick := Suc (tick s),
        trace := trace s @ [EvExec opts prg (Exec w (tick s) opts prg), EvFreeOSMemory, EvSleep]\<rparr>)
   = after_run w opts prg stat (Suc n) s"
proof -
  have "(stats s)(stat := stats s stat + 1, stat := stats s stat + 1 + of_nat (Suc n))
      = (stats s)(stat := stats s stat + of_nat (Suc (Suc n)))"
    by (rule ext) (simp add: add.commute add.left_commute)
  then show ?thesis
    by (simp add: after_run_def)
qed

text \<open>One unfolding of the label, by the answer to the attempt.\<close>

lemma retry_failed:
  "r_failed (Exec w (tick s) opts prg) \<Longrightarrow>
   retry w opts prg stat ntry s = Inr (None, after_run w opts prg stat 0 s)"
  by (subst retry.simps) (simp add: Let_def after_run_0)

lemma retry_ok:
  "\<not> r_failed (Exec w (tick s) opts prg) \<Longrightarrow> r_err (Exec w (tick s) opts prg) = None \<Longrightarrow>
   retry w opts prg stat ntry s = Inr (r_info (Exec w (tick s) opts prg), after_run w opts prg stat 0 s)"
  by (subst retry.simps) (simp add: Let_def after_run_0)

lemma retry_fatal:
  "\<not> r_failed (Exec w (tick s) opts prg) \<Longrightarrow> r_err (Exec w (tick s) opts prg) = Some e \<Longrightarrow>
   e = ExecutorFailure \<or> ntry > 10 \<Longrightarrow>
   retry w opts prg stat ntry s = Inl (PanicErr e, after_run w opts prg stat 0 s)"
  by (subst retry.simps) (auto simp add: Let_def after_run_0)

lemma retry_again:
  "transient (Exec w (tick s) opts prg) \<Longrightarrow> ntry \<le> 10 \<Longrightarrow>
   retry w opts prg stat ntry s = retry w opts prg stat (ntry + 1)
     (s\<lparr>stats := (stats s)(stat := stats s stat + 1), tick := Suc (tick s),
        trace := trace s @ [EvExec opts prg (Exec w (tick s) opts prg), EvFreeOSMemory, EvSleep]\<rparr>)"
  by (subst retry.simps) (simp add: Let_def transient_def)

lemma not_transient_cases:
  "\<not> transient r \<Longrightarrow> settled r \<or> r_err r = Some ExecutorFailure"
  by (cases "r_err r"; cases "the (r_err r)") (auto simp: transient_def settled_def)

lemma retry_cases:
  "\<exists>n. n \<le> 11 - ntry \<and> (\<forall>j<n. transient (Exec w (tick s + j) opts prg))
      \<and> (transient (Exec w (tick s + n) opts prg) \<longrightarrow> 10 < ntry + n)
      \<and> retry w opts prg stat ntry s = run_result w opts prg stat n s"
proof (induction w opts prg stat ntry s rule: retry.induct)
  case (1 w opts prg stat ntry s)
  let ?r = "Exec w (tick s) opts prg"
  let ?s1 = "s\<lparr>stats := (stats s)(stat := stats s stat + 1)\<rparr>"
  let ?s2 = "?s1\<lparr>tick := Suc (tick ?s1), trace := trace ?s1 @ [EvExec opts prg ?r]\<rparr>"
  let ?s3 = "s\<lparr>stats := (stats s)(stat := stats s stat + 1), tick := Suc (tick s),
        trace := trace s @ [EvExec opts prg ?r, EvFreeOSMemory, EvSleep]\<rparr>"
  show ?case
  proof (cases "transient ?r \<and> ntry \<le> 10")
    case True
    then have eq: "retry w opts prg stat ntry s = retry w opts prg stat (ntry + 1) ?s3"
      by (simp add: retry_again)
    have s3: "?s2\<lparr>trace := trace ?s2 @ [EvFreeOSMemory, EvSleep]\<rparr> = ?s3" by simp
    from True have "\<exists>n. n \<le> 11 - (ntry + 1) \<and> (\<forall>j<n. transient (Exec w (tick ?s3 + j) opts prg))
      \<and> (transient (Exec w (tick ?s3 + n) opts prg) \<longrightarrow> 10 < ntry + 1 + n)
      \<and> retry w opts prg stat (ntry + 1) ?s3 = run_result w opts prg stat n ?s3"
      using "1.IH"[of ?s1 ?r ?s2 EnvError] unfolding s3 by (simp add: transient_def)
    then obtain n where n: "n \<le> 11 - (ntry + 1)"
        "\<forall>j<n. transient (Exec w (tick ?s3 + j) opts prg)"
        "transient (Exec w (tick ?s3 + n) opts prg) \<longrightarrow> 10 < ntry + 1 + n"
        "retry w opts prg stat (ntry + 1) ?s3 = run_result w opts prg stat n ?s3"
      by blast
    have a: "\<forall>j<Suc n. transient (Exec w (tick s + j) opts prg)"
    proof (intro allI impI)
      fix j assume "j < Suc n"
      show "transient (Exec w (tick s + j) opts prg)"
      proof (cases j)
        case 0 with True show ?thesis by simp
      next
        case (Suc k)
        with \<open>j < Suc n\<close> n(2) have "transient (Exec w (tick ?s3 + k) opts prg)" by simp
        with Suc show ?thesis by simp
      qed
    qed
    have b: "run_result w opts prg stat n ?s3 = run_result w opts prg stat (Suc n) s"
      unfolding run_result_def after_run_Suc[symmetric] by simp
    from True n(1) have c: "Suc n \<le> 11 - ntry" by arith
    from n(3) have d: "transient (Exec w (tick s + Suc n) opts prg) \<longrightarrow> 10 < ntry + Suc n" by simp
    show ?thesis
      using a b c d eq n(4) by (intro exI[of _ "Suc n"]) simp
  next
    case False
    have "retry w opts prg stat ntry s = run_result w opts prg stat 0 s"
    proof (cases "transient ?r")
      case True
      with False have "ntry > 10" by simp
      with True show ?thesis
        by (simp add: run_result_def retry_fatal transient_def settled_def)
    next
      case nt: False
      from not_transient_cases[OF nt] show ?thesis
      proof
        assume st: "settled ?r"
        show ?thesis
        proof (cases "r_failed ?r")
          case True then show ?thesis using st by (simp add: run_result_def retry_failed result_info_def)
        next
          case False
          with st have "r_err ?r = None" by (simp add: settled_def)
          with False show ?thesis using st by (simp add: run_result_def retry_ok result_info_def)
        qed
      next
        assume ef: "r_err ?r = Some ExecutorFailure"
        show ?thesis
        proof (cases "r_failed ?r")
          case True then show ?thesis by (simp add: run_result_def retry_failed result_info_def settled_def)
        next
          case False
          with ef show ?thesis by (simp add: run_result_def retry_fatal settled_def)
        qed
      qed
    qed
    moreover from False have "transient ?r \<longrightarrow> 10 < ntry" by auto
    ultimately show ?thesis by (intro exI[of _ 0]) simp
  qed
qed

lemma run_trace_not_Nil [simp]: "run_trace w opts prg t n \<noteq> []"
  by (cases n) simp_all

lemma last_run_trace [simp]:
  "last (run_trace w opts prg t n) = EvExec opts prg (Exec w (t + n) opts prg)"
  by (induction n arbitrary: t) simp_all

lemma run_trace_exec_mem:
  "EvExec o' p' r \<in> set (run_trace w opts prg t n) \<Longrightarrow>
   \<exists>j\<le>n. o' = opts \<and> p' = prg \<and> r = Exec w (t + j) opts prg"
proof (induction n arbitrary: t)
  case 0 then show ?case by simp
next
  case (Suc n)
  from Suc.prems have "EvExec o' p' r = EvExec opts prg (Exec w t opts prg)
      \<or> EvExec o' p' r \<in> set (run_trace w opts prg (Suc t) n)" by simp
  then show ?case
  proof
    assume "EvExec o' p' r = EvExec opts prg (Exec w t opts prg)"
    then show ?thesis by (intro exI[of _ 0]) simp
  next
    assume "EvExec o' p' r \<in> set (run_trace w opts prg (Suc t) n)"
    from Suc.IH[OF this] obtain j where "j \<le> n" "o' = opts" "p' = prg" "r = Exec w (Suc t + j) opts prg"
      by blast
    then show ?thesis by (intro exI[of _ "Suc j"]) simp
  qed
qed

lemma run_trace_attempts [simp]: "length (filter is_exec (run_trace w opts prg t n)) = Suc n"
  by (induction n arbitrary: t) simp_all

lemma run_trace_sleeps [simp]: "count_list (run_trace w opts prg t n) EvSleep = n"
  by (induction n arbitrary: t) simp_all

lemma run_trace_reports [simp]: "filter is_report (run_trace w opts prg t n) = []"
  by (induction n arbitrary: t) simp_all

lemma new_events_after_run [simp]:
  "new_events s (after_run w opts prg stat n s) = run_trace w opts prg (tick s) n"
  by (simp add: new_events_def)

lemma new_events_self [simp]: "new_events s s = []"
  by (simp add: new_events_def)

lemma final_run_result [simp]:
  "final (run_result w opts prg stat n s) = after_run w opts prg stat n s"
  by (simp add: run_result_def Let_def)

lemma transient_not_settled: "transient r \<Longrightarrow> \<not> settled r"
  by (simp add: transient_def settled_def)

lemma executeRaw_cases:
  assumes "FlagDedupCover \<in> Flags opts"
  shows "\<exists>n\<le>11. (\<forall>j<n. transient (Exec w (tick s + j) opts prg))
      \<and> (transient (Exec w (tick s + n) opts prg) \<longrightarrow> n = 11)
      \<and> executeRaw w opts prg stat s = run_result w opts prg stat n s"
proof -
  from retry_cases[of 0 w s opts prg stat]
  obtain n where n: "n \<le> 11" "\<forall>j<n. transient (Exec w (tick s + j) opts prg)"
      "transient (Exec w (tick s + n) opts prg) \<longrightarrow> 10 < n"
      "retry w opts prg stat 0 s = run_result w opts prg stat n s"
    by auto
  from n(1,3) have "transient (Exec w (tick s + n) opts prg) \<longrightarrow> n = 11" by auto
  with n assms show ?thesis
    by (intro exI[of _ n]) (simp add: executeRaw_def)
qed

lemma executeRaw_run:
  assumes d: "FlagDedupCover \<in> Flags opts"
      and n: "n \<le> 11"
      and tr: "\<forall>j<n. transient (Exec w (tick s + j) opts prg)"
      and st: "settled (Exec w (tick s + n) opts prg)"
  shows "executeRaw w opts prg stat s
       = Inr (result_info (Exec w (tick s + n) opts prg), after_run w opts prg stat n s)"
proof -
  from executeRaw_cases[OF d, of w s prg stat]
  obtain m where m: "m \<le> 11" "\<forall>j<m. transient (Exec w (tick s + j) opts prg)"
      "transient (Exec w (tick s + m) opts prg) \<longrightarrow> m = 11"
      "executeRaw w opts prg stat s = run_result w opts prg stat m s"
    by blast
  have "m = n"
  proof (rule ccontr)
    assume "m \<noteq> n"
    then consider "m < n" | "n < m" by arith
    then show False
    proof cases
      case 1
      with tr have "transient (Exec w (tick s + m) opts prg)" by simp
      with m(3) 1 n show False by simp
    next
      case 2
      with m(2) have "transient (Exec w (tick s + n) opts prg)" by simp
      with st show False by (simp add: transient_not_settled)
    qed
  qed
  with m(4) st show ?thesis by (simp add: run_result_def)
qed

lemma executeRaw_settled:
  "FlagDedupCover \<in> Flags opts \<Longrightarrow> settled (Exec w (tick s) opts prg) \<Longrightarrow>
   executeRaw w opts prg stat s
     = Inr (result_info (Exec w (tick s) opts prg), after_run w opts prg stat 0 s)"
  using executeRaw_run[of opts 0 w s prg stat] by simp

subsection \<open>C10: the statistics count attempts\<close>

text \<open>Claim C10. For every call of \<^verbatim>\<open>executeRaw\<close> with statistics kind \<open>stat\<close>
  (with the deduplication flag set, so that the environment is called at all), the
  counter of \<open>stat\<close> is incremented once per attempt: it grows by the number of calls
  of the environment, which is the number of retries plus one; no other counter moves.
  The counter is a 64-bit word, the sum is taken there.\<close>

theorem executeRaw_counts_every_attempt:
  assumes "FlagDedupCover \<in> Flags opts"
  shows "stats (final (executeRaw w opts prg stat s))
           = (stats s)(stat := stats s stat
                + of_nat (attempts s (final (executeRaw w opts prg stat s))))
       \<and> attempts s (final (executeRaw w opts prg stat s))
           = retries s (final (executeRaw w opts prg stat s)) + 1"
proof -
  from executeRaw_cases[OF assms, of w s prg stat]
  obtain n where "executeRaw w opts prg stat s = run_result w opts prg stat n s" by blast
  then show ?thesis by (simp add: attempts_def retries_def)
qed

theorem executeRaw_counts_every_attempt_witness:
  "FlagDedupCover \<in> Flags opts0
   \<and> retries s0 (final (executeRaw late_world opts0 prg0 StatFuzz s0)) = 11
   \<and> stats (final (executeRaw late_world opts0 prg0 StatFuzz s0)) StatFuzz = 12"
proof -
  have d: "FlagDedupCover \<in> Flags opts0" by (simp add: opts0_def)
  have run: "executeRaw late_world opts0 prg0 StatFuzz s0
      = Inr (Some [], after_run late_world opts0 prg0 StatFuzz 11 s0)"
    using executeRaw_run[OF d, of 11 late_world s0 prg0 StatFuzz]
    by (simp add: late_world_def world_of_def answer_def transient_def settled_def
        result_info_def s0_def)
  have r: "retries s0 (final (executeRaw late_world opts0 prg0 StatFuzz s0)) = 11"
    by (simp add: run retries_def)
  from executeRaw_counts_every_attempt[OF d, of late_world prg0 StatFuzz s0] r
  have "stats (final (executeRaw late_world opts0 prg0 StatFuzz s0)) StatFuzz
      = stats s0 StatFuzz + 12" by simp
  with d r show ?thesis by (simp add: s0_def)
qed

subsection \<open>The loop over the results leaves the trace alone\<close>

lemma hook_trace [simp]: "trace (hook prg mi ca i cis s) = trace s"
  by (induction prg mi ca i cis s rule: hook.induct) (simp_all add: Let_def)

lemma hook_Nil_elems [simp]: "hook prg mi ca i (elems None) s = s"
  by (simp add: elems_def)

subsection \<open>C3: the retries are bounded\<close>

text \<open>Claim C3, amended. \<^verbatim>\<open>executeRaw\<close> makes at most eleven retries (twelve attempts):
  the guard is \<^verbatim>\<open>try > 10\<close> and \<^verbatim>\<open>try\<close> counts the retries made so far. Its events are
  an attempt, then for every retry the memory release, the one-second sleep and the next
  attempt, in this order. When the environment answers all twelve attempts with a
  retryable error, \<^verbatim>\<open>executeRaw\<close> panics with that error after the twelfth. The
  function is total: it never loops forever.\<close>

theorem executeRaw_retry_bound:
  assumes "FlagDedupCover \<in> Flags opts"
  shows "(\<exists>n\<le>11. final (executeRaw w opts prg stat s) = after_run w opts prg stat n s
            \<and> new_events s (final (executeRaw w opts prg stat s))
                = run_trace w opts prg (tick s) n
            \<and> retries s (final (executeRaw w opts prg stat s)) = n)
       \<and> ((\<forall>j\<le>11. transient (Exec w (tick s + j) opts prg)) \<longrightarrow>
            executeRaw w opts prg stat s
              = Inl (PanicErr EnvError, after_run w opts prg stat 11 s))"
proof -
  from executeRaw_cases[OF assms, of w s prg stat]
  obtain n where n: "n \<le> 11" "\<forall>j<n. transient (Exec w (tick s + j) opts prg)"
      "transient (Exec w (tick s + n) opts prg) \<longrightarrow> n = 11"
      "executeRaw w opts prg stat s = run_result w opts prg stat n s"
    by blast
  have first: "\<exists>n\<le>11. final (executeRaw w opts prg stat s) = after_run w opts prg stat n s
            \<and> new_events s (final (executeRaw w opts prg stat s))
                = run_trace w opts prg (tick s) n
            \<and> retries s (final (executeRaw w opts prg stat s)) = n"
    using n(1,4) by (intro exI[of _ n]) (simp add: retries_def)
  have second: "executeRaw w opts prg stat s
              = Inl (PanicErr EnvError, after_run w opts prg stat 11 s)"
    if all: "\<forall>j\<le>11. transient (Exec w (tick s + j) opts prg)"
  proof -
    from all n(1) have t: "transient (Exec w (tick s + n) opts prg)" by simp
    with n(3) have "n = 11" by simp
    with n(4) t show ?thesis
      by (simp add: run_result_def transient_not_settled) (simp add: transient_def)
  qed
  from first second show ?thesis by blast
qed

theorem executeRaw_retry_bound_witness:
  "FlagDedupCover \<in> Flags opts0
   \<and> executeRaw broken_world opts0 prg0 StatFuzz s0
       = Inl (PanicErr EnvError, after_run broken_world opts0 prg0 StatFuzz 11 s0)
   \<and> retries s0 (after_run broken_world opts0 prg0 StatFuzz 11 s0) = 11"
proof -
  have d: "FlagDedupCover \<in> Flags opts0" by (simp add: opts0_def)
  have t: "\<forall>j\<le>11. transient (Exec broken_world (tick s0 + j) opts0 prg0)"
    by (simp add: broken_world_def world_of_def answer_def transient_def)
  from executeRaw_retry_bound[OF d, of broken_world prg0 StatFuzz s0] t
  have "executeRaw broken_world opts0 prg0 StatFuzz s0
       = Inl (PanicErr EnvError, after_run broken_world opts0 prg0 StatFuzz 11 s0)" by blast
  with d show ?thesis by (simp add: retries_def)
qed

text \<open>Claim C3 as stated ("at most 10 retry attempts are made") fails: an environment
  that fails eleven times and then answers is retried eleven times, and the run
  succeeds.\<close>

theorem executeRaw_eleven_retries_counterexample:
  "\<not> retries s0 (final (executeRaw late_world opts0 prg0 StatFuzz s0)) \<le> 10"
proof -
  have d: "FlagDedupCover \<in> Flags opts0" by (simp add: opts0_def)
  have "executeRaw late_world opts0 prg0 StatFuzz s0
      = Inr (Some [], after_run late_world opts0 prg0 StatFuzz 11 s0)"
    using executeRaw_run[OF d, of 11 late_world s0 prg0 StatFuzz]
    by (simp add: late_world_def world_of_def answer_def transient_def settled_def
        result_info_def s0_def)
  then show ?thesis by (simp add: retries_def)
qed

subsection \<open>C6: a run with the failed flag is dropped\<close>

text \<open>Claim C6. Whenever an answer of the environment to \<^verbatim>\<open>execute\<close> carries the
  failed flag, it is the last event of the run (no retry follows),
  \<^verbatim>\<open>executeRaw\<close> returns nil, and so does \<^verbatim>\<open>execute\<close>, in the same state: the
  loop over the results sees no call, max signal and new signal are as before, and the
  work queue has no new item.\<close>

theorem failed_run_is_dropped:
  assumes ev: "EvExec o' p' r
           \<in> set (new_events s (final (execute w eo prg needComps mi ca noCollide stat s)))"
      and f: "r_failed r"
  shows "\<exists>s'. executeRaw w (exec_opts eo needComps noCollide) prg stat s = Inr (None, s')
           \<and> execute w eo prg needComps mi ca noCollide stat s = Inr (None, s')
           \<and> last (trace s') = EvExec o' p' r
           \<and> maxSignal s' = maxSignal s \<and> newSignal s' = newSignal s
           \<and> workQueue s' = workQueue s"
proof -
  let ?opts = "exec_opts eo needComps noCollide"
  have nc: "\<not> (needComps \<and> \<not> compsSupported s)"
  proof
    assume "needComps \<and> \<not> compsSupported s"
    then have "final (execute w eo prg needComps mi ca noCollide stat s) = s"
      by (simp add: execute_def)
    with ev show False by simp
  qed
  have d: "FlagDedupCover \<in> Flags ?opts"
  proof (rule ccontr)
    assume "FlagDedupCover \<notin> Flags ?opts"
    with nc have "final (execute w eo prg needComps mi ca noCollide stat s) = s"
      by (simp add: execute_def executeRaw_def)
    with ev show False by simp
  qed
  from executeRaw_cases[OF d, of w s prg stat]
  obtain n where n: "n \<le> 11" "\<forall>j<n. transient (Exec w (tick s + j) ?opts prg)"
      "executeRaw w ?opts prg stat s = run_result w ?opts prg stat n s"
    by blast
  have tr: "trace (final (execute w eo prg needComps mi ca noCollide stat s))
      = trace (after_run w ?opts prg stat n s)"
    using nc n(3) by (simp add: execute_def run_result_def Let_def)
  then have "new_events s (final (execute w eo prg needComps mi ca noCollide stat s))
      = run_trace w ?opts prg (tick s) n"
    by (simp add: new_events_def)
  with ev have "EvExec o' p' r \<in> set (run_trace w ?opts prg (tick s) n)" by simp
  from run_trace_exec_mem[OF this]
  obtain j where j: "j \<le> n" "o' = ?opts" "p' = prg" "r = Exec w (tick s + j) ?opts prg"
    by blast
  have "j = n"
  proof (rule ccontr)
    assume "j \<noteq> n"
    with j(1) have "j < n" by simp
    with n(2) j(4) have "transient r" by simp
    with f show False by (simp add: transient_def)
  qed
  with j f have st: "settled (Exec w (tick s + n) ?opts prg)"
      and ri: "result_info (Exec w (tick s + n) ?opts prg) = None"
    by (simp_all add: settled_def result_info_def)
  have raw: "executeRaw w ?opts prg stat s = Inr (None, after_run w ?opts prg stat n s)"
    using n(3) st ri by (simp add: run_result_def)
  have ex: "execute w eo prg needComps mi ca noCollide stat s
      = Inr (None, after_run w ?opts prg stat n s)"
    using nc raw by (simp add: execute_def)
  show ?thesis
    using raw ex j \<open>j = n\<close> by (intro exI[of _ "after_run w ?opts prg stat n s"]) simp
qed

theorem failed_run_is_dropped_witness:
  "execute bug_world opts0 prg0 False False False False StatGenerate s0
     = Inr (None, after_run bug_world opts0 prg0 StatGenerate 0 s0)
   \<and> maxSignal (after_run bug_world opts0 prg0 StatGenerate 0 s0) = {}
   \<and> workQueue (after_run bug_world opts0 prg0 StatGenerate 0 s0) = []"
proof -
  let ?r = "Exec bug_world 0 opts0 prg0"
  have d: "FlagDedupCover \<in> Flags opts0" by (simp add: opts0_def)
  have eo: "exec_opts opts0 False False = opts0" by (simp add: exec_opts_def)
  have f: "r_failed ?r" by (simp add: bug_world_def world_of_def answer_def)
  have raw: "executeRaw bug_world opts0 prg0 StatGenerate s0
      = Inr (None, after_run bug_world opts0 prg0 StatGenerate 0 s0)"
    using executeRaw_settled[OF d, of bug_world s0 prg0 StatGenerate] f
    by (simp add: settled_def result_info_def s0_def)
  have ex: "execute bug_world opts0 prg0 False False False False StatGenerate s0
      = Inr (None, after_run bug_world opts0 prg0 StatGenerate 0 s0)"
    by (simp add: execute_def eo raw)
  have ev: "EvExec opts0 prg0 ?r
      \<in> set (new_events s0 (final (execute bug_world opts0 prg0 False False False False
                StatGenerate s0)))"
    unfolding ex by (simp add: s0_def)
  from failed_run_is_dropped[OF ev f] ex
  show ?thesis by (auto simp: s0_def)
qed

subsection \<open>C8: failCall stops at the first trial without an injected fault\<close>

lemma fault_opts_dedup [simp]:
  "FlagDedupCover \<in> Flags (fault_opts eo call n) \<longleftrightarrow> FlagDedupCover \<in> Flags eo"
  by (simp add: fault_opts_def)

lemma FaultNth_fault_opts [simp]: "FaultNth (fault_opts eo call n) = int n"
  by (simp add: fault_opts_def)

lemma failCall_from_stop:
  assumes d: "FlagDedupCover \<in> Flags (execOpts s)"
      and k: "nth0 + m < 100"
      and st: "\<forall>j\<le>m. settled (trial_answer w s prg call nth0 j)"
      and go: "\<forall>j<m. \<not> no_fault (result_info (trial_answer w s prg call nth0 j)) call"
      and stop: "no_fault (result_info (trial_answer w s prg call nth0 m)) call"
  shows "\<exists>s' evs. failCall_from w prg call nth0 s = Inr ((), s')
           \<and> trace s' = trace s @ evs \<and> list_all is_exec evs
           \<and> map fault_nth evs = map int [nth0..<nth0 + Suc m]"
  using assms
proof (induction m arbitrary: nth0 s)
  case 0
  let ?opts = "fault_opts (execOpts s) call nth0"
  from 0 have st0: "settled (Exec w (tick s) ?opts prg)" by (simp add: trial_answer_def)
  from 0 have d0: "FlagDedupCover \<in> Flags ?opts" by simp
  have raw: "executeRaw w ?opts prg StatSmash s
      = Inr (result_info (Exec w (tick s) ?opts prg), after_run w ?opts prg StatSmash 0 s)"
    by (rule executeRaw_settled[OF d0 st0])
  from 0 have nf: "no_fault (result_info (Exec w (tick s) ?opts prg)) call"
    by (simp add: trial_answer_def)
  have "failCall_from w prg call nth0 s = Inr ((), after_run w ?opts prg StatSmash 0 s)"
    using 0(2) nf by (subst failCall_from.simps) (simp add: raw no_fault_def)
  then show ?case
    by (intro exI[of _ "after_run w ?opts prg StatSmash 0 s"]
              exI[of _ "[EvExec ?opts prg (Exec w (tick s) ?opts prg)]"]) simp
next
  case (Suc m)
  let ?opts = "fault_opts (execOpts s) call nth0"
  let ?s1 = "after_run w ?opts prg StatSmash 0 s"
  from Suc.prems have st0: "settled (Exec w (tick s) ?opts prg)"
    by (auto simp add: trial_answer_def dest: spec[of _ 0])
  from Suc.prems have d0: "FlagDedupCover \<in> Flags ?opts" by simp
  have raw: "executeRaw w ?opts prg StatSmash s
      = Inr (result_info (Exec w (tick s) ?opts prg), ?s1)"
    by (rule executeRaw_settled[OF d0 st0])
  from Suc.prems(4) have nf: "\<not> no_fault (result_info (Exec w (tick s) ?opts prg)) call"
    by (auto simp add: trial_answer_def dest: spec[of _ 0])
  from Suc.prems(2) have lt: "nth0 < 100" by simp
  have step: "failCall_from w prg call nth0 s = failCall_from w prg call (nth0 + 1) ?s1"
    using lt nf by (subst failCall_from.simps) (auto simp add: raw no_fault_def)
  have ta: "trial_answer w ?s1 prg call (Suc nth0) j = trial_answer w s prg call nth0 (Suc j)" for j
    by (simp add: trial_answer_def)
  have "\<exists>s' evs. failCall_from w prg call (nth0 + 1) ?s1 = Inr ((), s')
           \<and> trace s' = trace ?s1 @ evs \<and> list_all is_exec evs
           \<and> map fault_nth evs = map int [nth0 + 1..<nth0 + 1 + Suc m]"
  proof (rule Suc.IH)
    show "FlagDedupCover \<in> Flags (execOpts ?s1)" using Suc.prems(1) by simp
    show "nth0 + 1 + m < 100" using Suc.prems(2) by simp
    show "\<forall>j\<le>m. settled (trial_answer w ?s1 prg call (nth0 + 1) j)"
      using Suc.prems(3) by (simp add: ta)
    show "\<forall>j<m. \<not> no_fault (result_info (trial_answer w ?s1 prg call (nth0 + 1) j)) call"
      using Suc.prems(4) by (simp add: ta)
    show "no_fault (result_info (trial_answer w ?s1 prg call (nth0 + 1) m)) call"
      using Suc.prems(5) by (simp add: ta)
  qed
  then obtain s' evs where r: "failCall_from w prg call (nth0 + 1) ?s1 = Inr ((), s')"
      "trace s' = trace ?s1 @ evs" "list_all is_exec evs"
      "map fault_nth evs = map int [nth0 + 1..<nth0 + 1 + Suc m]" by blast
  have up: "[nth0..<nth0 + Suc (Suc m)] = nth0 # [nth0 + 1..<nth0 + 1 + Suc m]"
    by (simp add: upt_conv_Cons)
  show ?case
    using r step unfolding up
    by (intro exI[of _ s'] exI[of _ "EvExec ?opts prg (Exec w (tick s) ?opts prg) # evs"]) simp
qed

lemma failCall_from_cap:
  assumes d: "FlagDedupCover \<in> Flags (execOpts s)"
      and k: "nth0 + m = 100"
      and st: "\<forall>j<m. settled (trial_answer w s prg call nth0 j)"
      and go: "\<forall>j<m. \<not> no_fault (result_info (trial_answer w s prg call nth0 j)) call"
  shows "\<exists>s' evs. failCall_from w prg call nth0 s = Inr ((), s')
           \<and> trace s' = trace s @ evs \<and> list_all is_exec evs
           \<and> map fault_nth evs = map int [nth0..<100]"
  using assms
proof (induction m arbitrary: nth0 s)
  case 0
  then have "failCall_from w prg call nth0 s = Inr ((), s)"
    by (subst failCall_from.simps) simp
  with 0 show ?case by (intro exI[of _ s] exI[of _ "[]"]) simp
next
  case (Suc m)
  let ?opts = "fault_opts (execOpts s) call nth0"
  let ?s1 = "after_run w ?opts prg StatSmash 0 s"
  from Suc.prems have st0: "settled (Exec w (tick s) ?opts prg)"
    by (auto simp add: trial_answer_def dest: spec[of _ 0])
  from Suc.prems have d0: "FlagDedupCover \<in> Flags ?opts" by simp
  have raw: "executeRaw w ?opts prg StatSmash s
      = Inr (result_info (Exec w (tick s) ?opts prg), ?s1)"
    by (rule executeRaw_settled[OF d0 st0])
  from Suc.prems(4) have nf: "\<not> no_fault (result_info (Exec w (tick s) ?opts prg)) call"
    by (auto simp add: trial_answer_def dest: spec[of _ 0])
  from Suc.prems(2) have lt: "nth0 < 100" by simp
  have step: "failCall_from w prg call nth0 s = failCall_from w prg call (nth0 + 1) ?s1"
    using lt nf by (subst failCall_from.simps) (auto simp add: raw no_fault_def)
  have ta: "trial_answer w ?s1 prg call (Suc nth0) j = trial_answer w s prg call nth0 (Suc j)" for j
    by (simp add: trial_answer_def)
  have "\<exists>s' evs. failCall_from w prg call (nth0 + 1) ?s1 = Inr ((), s')
           \<and> trace s' = trace ?s1 @ evs \<and> list_all is_exec evs
           \<and> map fault_nth evs = map int [nth0 + 1..<100]"
  proof (rule Suc.IH)
    show "FlagDedupCover \<in> Flags (execOpts ?s1)" using Suc.prems(1) by simp
    show "nth0 + 1 + m = 100" using Suc.prems(2) by simp
    show "\<forall>j<m. settled (trial_answer w ?s1 prg call (nth0 + 1) j)"
      using Suc.prems(3) by (simp add: ta)
    show "\<forall>j<m. \<not> no_fault (result_info (trial_answer w ?s1 prg call (nth0 + 1) j)) call"
      using Suc.prems(4) by (simp add: ta)
  qed
  then obtain s' evs where r: "failCall_from w prg call (nth0 + 1) ?s1 = Inr ((), s')"
      "trace s' = trace ?s1 @ evs" "list_all is_exec evs"
      "map fault_nth evs = map int [nth0 + 1..<100]" by blast
  have up: "[nth0..<100] = nth0 # [nth0 + 1..<100]"
    using lt by (simp add: upt_conv_Cons)
  show ?case
    using r step unfolding up
    by (intro exI[of _ s'] exI[of _ "EvExec ?opts prg (Exec w (tick s) ?opts prg) # evs"]) simp
qed

lemma trials_of_trace:
  "trace s' = trace s @ evs \<Longrightarrow> list_all is_exec evs \<Longrightarrow> trials s s' = map fault_nth evs"
  by (simp add: trials_def new_events_def list_all_iff)

text \<open>Claim C8. \<^verbatim>\<open>failCall\<close> runs the trials 0, 1, 2, ... in order. When no attempt
  has to be retried: if the trial \<open>k < 100\<close> is the first whose result reports that no
  fault was injected into the call, the trials made are exactly 0 to \<open>k\<close>; if no trial
  below 100 is such, the trials made are exactly 0 to 99. With five faultable points
  the last trial is the trial 5.\<close>

theorem failCall_stops_at_first_miss:
  assumes d: "FlagDedupCover \<in> Flags (execOpts s)"
  shows "(k < 100 \<and> (\<forall>j\<le>k. settled (trial_answer w s prg call 0 j))
            \<and> (\<forall>j<k. \<not> no_fault (result_info (trial_answer w s prg call 0 j)) call)
            \<and> no_fault (result_info (trial_answer w s prg call 0 k)) call
          \<longrightarrow> (\<exists>s'. failCall w prg call s = Inr ((), s')
                 \<and> trials s s' = map int [0..<Suc k]))
       \<and> ((\<forall>j<100. settled (trial_answer w s prg call 0 j)
                  \<and> \<not> no_fault (result_info (trial_answer w s prg call 0 j)) call)
          \<longrightarrow> (\<exists>s'. failCall w prg call s = Inr ((), s')
                 \<and> trials s s' = map int [0..<100]))"
proof (intro conjI impI)
  assume a: "k < 100 \<and> (\<forall>j\<le>k. settled (trial_answer w s prg call 0 j))
            \<and> (\<forall>j<k. \<not> no_fault (result_info (trial_answer w s prg call 0 j)) call)
            \<and> no_fault (result_info (trial_answer w s prg call 0 k)) call"
  from failCall_from_stop[OF d, of 0 k w prg call] a
  obtain s' evs where "failCall_from w prg call 0 s = Inr ((), s')"
      "trace s' = trace s @ evs" "list_all is_exec evs"
      "map fault_nth evs = map int [0..<Suc k]" by auto
  then show "\<exists>s'. failCall w prg call s = Inr ((), s') \<and> trials s s' = map int [0..<Suc k]"
    by (intro exI[of _ s']) (simp add: failCall_def trials_of_trace)
next
  assume a: "\<forall>j<100. settled (trial_answer w s prg call 0 j)
                  \<and> \<not> no_fault (result_info (trial_answer w s prg call 0 j)) call"
  from failCall_from_cap[OF d, of 0 100 w prg call] a
  obtain s' evs where "failCall_from w prg call 0 s = Inr ((), s')"
      "trace s' = trace s @ evs" "list_all is_exec evs"
      "map fault_nth evs = map int [0..<100]" by auto
  then show "\<exists>s'. failCall w prg call s = Inr ((), s') \<and> trials s s' = map int [0..<100]"
    by (intro exI[of _ s']) (simp add: failCall_def trials_of_trace)
qed

theorem failCall_stops_at_first_miss_witness:
  "FlagDedupCover \<in> Flags (execOpts s0)
   \<and> trials s0 (final (failCall five_points_world prg0 0 s0)) = [0, 1, 2, 3, 4, 5]"
proof -
  have d: "FlagDedupCover \<in> Flags (execOpts s0)" by (simp add: s0_def opts0_def)
  have ta: "trial_answer five_points_world s0 prg0 0 0 j
      = answer (Some [\<lparr>Signal = [], Cover = [], Comps = [], FaultInjected = (int j < 5)\<rparr>])
          False None" for j
    by (simp add: trial_answer_def five_points_world_def world_of_def)
  have h: "(5::nat) < 100 \<and> (\<forall>j\<le>5. settled (trial_answer five_points_world s0 prg0 0 0 j))
      \<and> (\<forall>j<5. \<not> no_fault (result_info (trial_answer five_points_world s0 prg0 0 0 j)) 0)
      \<and> no_fault (result_info (trial_answer five_points_world s0 prg0 0 0 5)) 0"
    by (simp add: ta settled_def answer_def result_info_def no_fault_def len_def elems_def)
  from failCall_stops_at_first_miss[OF d, of 5 five_points_world prg0 0] h
  obtain s' where s': "failCall five_points_world prg0 0 s0 = Inr ((), s')"
      "trials s0 s' = map int [0..<Suc 5]" by blast
  have "map int [0..<Suc 5] = [0, 1, 2, 3, 4, 5]" by (simp add: upt_rec)
  with s' d show ?thesis by simp
qed

subsection \<open>Runs that only execute\<close>

lemma quiet_refl [simp]: "quiet s s"
  by (simp add: quiet_def)

lemma quiet_trans: "quiet s s1 \<Longrightarrow> quiet s1 s2 \<Longrightarrow> quiet s s2"
  by (auto simp: quiet_def)

lemma quiet_after_run [simp]: "quiet s (after_run w opts prg stat n s)"
  by (simp add: quiet_def)

lemma quiet_reports: "quiet s s' \<Longrightarrow> reports s s' = []"
  by (auto simp: quiet_def reports_def new_events_def)

lemma executeRaw_quiet: "quiet s (final (executeRaw w opts prg stat s))"
proof (cases "FlagDedupCover \<in> Flags opts")
  case True
  from executeRaw_cases[OF True, of w s prg stat] show ?thesis by auto
next
  case False
  then show ?thesis by (simp add: executeRaw_def)
qed

lemma executeRaw_quiet_Inr: "executeRaw w opts prg stat s = Inr (info, s') \<Longrightarrow> quiet s s'"
  using executeRaw_quiet[of s w opts prg stat] by simp

lemma executeRaw_quiet_Inl: "executeRaw w opts prg stat s = Inl (e, s') \<Longrightarrow> quiet s s'"
  using executeRaw_quiet[of s w opts prg stat] by simp

lemma deflake_quiet: "quiet s (final (deflake_loop w opts item n ne novel ic s))"
proof (induction n arbitrary: ne novel ic s)
  case 0
  show ?case by simp
next
  case (Suc n)
  show ?case
  proof (cases "executeRaw w opts (t_p item) StatTriage s")
    case (Inl a)
    obtain e s1 where a: "a = (e, s1)" by (cases a)
    with Inl show ?thesis by (simp add: executeRaw_quiet_Inl)
  next
    case (Inr b)
    obtain info s1 where b: "b = (info, s1)" by (cases b)
    with Inr have q1: "quiet s s1" by (simp add: executeRaw_quiet_Inr)
    have rec: "quiet s (final (deflake_loop w opts item n ne' novel' ic' s1))" for ne' novel' ic'
      by (rule quiet_trans[OF q1 Suc])
    show ?thesis using Inr b q1 rec by (simp add: Let_def split: option.splits)
  qed
qed

lemma harvest_quiet: "quiet s (final (harvest w opts item n s))"
proof (induction n arbitrary: s)
  case 0
  show ?case by simp
next
  case (Suc n)
  show ?case
  proof (cases "executeRaw w opts (t_p item) StatTriage s")
    case (Inl a)
    obtain e s1 where a: "a = (e, s1)" by (cases a)
    with Inl show ?thesis by (simp add: executeRaw_quiet_Inl)
  next
    case (Inr b)
    obtain info s1 where b: "b = (info, s1)" by (cases b)
    with Inr have q1: "quiet s s1" by (simp add: executeRaw_quiet_Inr)
    have rec: "quiet s (final (harvest w opts item n s1))"
      by (rule quiet_trans[OF q1 Suc])
    show ?thesis using Inr b q1 rec by (simp add: Let_def split: option.splits)
  qed
qed

lemma SignalDiff_empty: "SignalDiff base sg = [] \<longleftrightarrow> set sg \<subseteq> base"
  by (auto simp: SignalDiff_def filter_empty_conv)

subsection \<open>C2: a triage item that is already covered\<close>

text \<open>Claim C2. When the captured signal of a triage item is within corpus signal (the
  difference of line 99 is empty), \<^verbatim>\<open>triageInput\<close> returns at once and the state is
  the one it was called in: no execution, no report to the manager, the same corpus,
  corpus signal and work queue. (With coverage disabled \<^verbatim>\<open>triageInput\<close> panics
  before it looks at the item, as its first lines say it must not be called then.)\<close>

theorem triage_of_known_signal_does_nothing:
  assumes "\<not> noCover s" and "set (t_signal item) \<subseteq> corpusSignal s"
  shows "SignalDiff (corpusSignal s) (t_signal item) = []
       \<and> triageInput w item s = Inr ((), s)
       \<and> attempts s (final (triageInput w item s)) = 0
       \<and> reports s (final (triageInput w item s)) = []"
proof -
  from assms(2) have e: "SignalDiff (corpusSignal s) (t_signal item) = []"
    by (simp add: SignalDiff_empty)
  with assms(1) have "triageInput w item s = Inr ((), s)"
    by (simp add: triageInput_def)
  with e show ?thesis by (simp add: attempts_def reports_def)
qed

theorem triage_of_known_signal_does_nothing_witness:
  "\<not> noCover (s0\<lparr>corpusSignal := {1, 2, 3}\<rparr>)
   \<and> set (t_signal item0) \<subseteq> corpusSignal (s0\<lparr>corpusSignal := {1, 2, 3}\<rparr>)
   \<and> triageInput drifting_world item0 (s0\<lparr>corpusSignal := {1, 2, 3}\<rparr>)
       = Inr ((), s0\<lparr>corpusSignal := {1, 2, 3}\<rparr>)"
proof -
  have a: "\<not> noCover (s0\<lparr>corpusSignal := {1, 2, 3}\<rparr>)" by (simp add: s0_def)
  have b: "set (t_signal item0) \<subseteq> corpusSignal (s0\<lparr>corpusSignal := {1, 2, 3}\<rparr>)"
    by (simp add: item0_def)
  from triage_of_known_signal_does_nothing[OF a b, of drifting_world] a b
  show ?thesis by simp
qed

subsection \<open>C5: the reproduced signal becomes empty\<close>

text \<open>Claim C5. For an item that is not minimized: when the loop of the up to three runs
  leaves because the intersection of the novel signal with the canonicalized signals of
  the runs is empty (line 139), \<^verbatim>\<open>triageInput\<close> returns in the state of that moment;
  no report was sent, and the corpus, corpus signal and the work queue are as before.\<close>

theorem triage_stops_when_signal_vanishes:
  assumes nc: "\<not> noCover s" and nm: "\<not> t_minimized item"
      and ix: "t_call item < length (Calls (t_p item))"
      and ne: "SignalDiff (corpusSignal s) (t_signal item) \<noteq> []"
      and v: "deflake_loop w (triage_opts (execOpts s)) item 3 False
               (Canonicalize (SignalDiff (corpusSignal s) (t_signal item))) [] s
             = Inr (Vanished, s')"
  shows "triageInput w item s = Inr ((), s')
       \<and> reports s s' = [] \<and> corpus s' = corpus s \<and> corpusSignal s' = corpusSignal s
       \<and> workQueue s' = workQueue s"
proof -
  have t: "triageInput w item s = Inr ((), s')"
    using nc nm ix ne v by (simp add: triageInput_def index_def len_def elems_def Let_def)
  from deflake_quiet[of s w "triage_opts (execOpts s)" item 3 False
      "Canonicalize (SignalDiff (corpusSignal s) (t_signal item))" "[]"] v
  have q: "quiet s s'" by simp
  then have "reports s s' = []" by (rule quiet_reports)
  with t q show ?thesis by (simp add: quiet_def)
qed


subsection \<open>One pass of the loop over the triage runs\<close>

lemma deflake_step:
  assumes d: "FlagDedupCover \<in> Flags opts"
      and st: "settled (Exec w (tick s) opts (t_p item))"
  shows "deflake_loop w opts item (Suc n) ne novel ic s =
    (let info = result_info (Exec w (tick s) opts (t_p item));
         s' = after_run w opts (t_p item) StatTriage 0 s
     in if len info = 0 then
           (if ne then Inr (GiveUp, s') else deflake_loop w opts item n True novel ic s')
        else (case index info (t_call item) of
             None \<Rightarrow> Inl (IndexOutOfRange, s')
           | Some ci \<Rightarrow>
               if length (Signal ci) = 0 then
                 (if ne then Inr (GiveUp, s') else deflake_loop w opts item n True novel ic s')
               else
                 let novel' = Intersection novel (Canonicalize (Signal ci)) in
                 if length novel' = 0 then Inr (Vanished, s')
                 else deflake_loop w opts item n ne novel'
                        (if length ic = 0 then Cover ci else Union ic (Cover ci)) s'))"
  by (simp add: executeRaw_settled[OF d st] Let_def)

lemma triage_opts_dedup [simp]:
  "FlagDedupCover \<in> Flags (triage_opts eo) \<longleftrightarrow> FlagDedupCover \<in> Flags eo"
  by (auto simp add: triage_opts_def)

theorem triage_stops_when_signal_vanishes_witness:
  "triageInput drifting_world item0 s0
     = Inr ((), after_run drifting_world (triage_opts opts0) prg0 StatTriage 0
                  (after_run drifting_world (triage_opts opts0) prg0 StatTriage 0 s0))
   \<and> corpus (after_run drifting_world (triage_opts opts0) prg0 StatTriage 0
                  (after_run drifting_world (triage_opts opts0) prg0 StatTriage 0 s0)) = []"
proof -
  let ?o = "triage_opts opts0"
  let ?s1 = "after_run drifting_world ?o prg0 StatTriage 0 s0"
  let ?s2 = "after_run drifting_world ?o prg0 StatTriage 0 ?s1"
  have eo: "execOpts s0 = opts0" and t0: "tick s0 = 0" and cs: "corpusSignal s0 = {}"
    and nc: "\<not> noCover s0" and c0: "corpus s0 = []"
    by (simp_all add: s0_def)
  have d: "FlagDedupCover \<in> Flags ?o" by (simp add: opts0_def)
  have st: "settled (Exec drifting_world t ?o prg0)" for t
    by (simp add: drifting_world_def world_of_def answer_def settled_def)
  have ri: "result_info (Exec drifting_world t ?o prg0) = sig_info [of_nat t + 1]" for t
    by (simp add: drifting_world_def world_of_def answer_def result_info_def)
  have nov: "Canonicalize (SignalDiff (corpusSignal s0) (t_signal item0)) = [1, 2]"
    by (simp add: cs item0_def SignalDiff_def Canonicalize_def)
  have ip: "t_p item0 = prg0" "t_call item0 = 0" "\<not> t_minimized item0"
    by (simp_all add: item0_def)
  have one: "deflake_loop drifting_world ?o item0 3 False [1, 2] [] s0
      = deflake_loop drifting_world ?o item0 2 False [1] [1] ?s1"
    unfolding numeral_3_eq_3
    by (subst deflake_step[OF d])
       (simp_all add: ip st ri t0 sig_info_def len_def index_def elems_def Intersection_def
          Canonicalize_def Let_def numeral_2_eq_2)
  have two: "deflake_loop drifting_world ?o item0 2 False [1] [1] ?s1 = Inr (Vanished, ?s2)"
    unfolding numeral_2_eq_2
    by (subst deflake_step[OF d])
       (simp_all add: ip st ri t0 sig_info_def len_def index_def elems_def Intersection_def
          Canonicalize_def Let_def)
  have v: "deflake_loop drifting_world (triage_opts (execOpts s0)) item0 3 False
               (Canonicalize (SignalDiff (corpusSignal s0) (t_signal item0))) [] s0
             = Inr (Vanished, ?s2)"
    by (simp only: eo nov one two)
  have ix: "t_call item0 < length (Calls (t_p item0))" by (simp add: item0_def prg0_def)
  have ne: "SignalDiff (corpusSignal s0) (t_signal item0) \<noteq> []"
    by (simp add: cs item0_def SignalDiff_def)
  from triage_stops_when_signal_vanishes[OF nc ip(3) ix ne v]
  show ?thesis by (simp add: c0)
qed


lemma set_Canonicalize [simp]: "set (Canonicalize sg) = set sg"
  by (simp add: Canonicalize_def)

lemma Canonicalize_Nil_iff [simp]: "Canonicalize sg = [] \<longleftrightarrow> sg = []"
  by (metis set_Canonicalize set_empty)

lemma Intersection_all: "set novel \<subseteq> set sg \<Longrightarrow> Intersection novel (Canonicalize sg) = novel"
  by (auto simp: Intersection_def intro: filter_True)

lemma deflake_miss:
  assumes d: "FlagDedupCover \<in> Flags opts"
      and st: "settled (Exec w (tick s) opts (t_p item))"
      and m: "missed (result_info (Exec w (tick s) opts (t_p item))) (t_call item)"
  shows "deflake_loop w opts item (Suc n) ne novel ic s =
     (if ne then Inr (GiveUp, after_run w opts (t_p item) StatTriage 0 s)
      else deflake_loop w opts item n True novel ic (after_run w opts (t_p item) StatTriage 0 s))"
  using m by (subst deflake_step[OF d st]) (auto simp: missed_def index_def Let_def)

lemma deflake_hit:
  assumes d: "FlagDedupCover \<in> Flags opts"
      and st: "settled (Exec w (tick s) opts (t_p item))"
      and h: "hits novel (result_info (Exec w (tick s) opts (t_p item))) (t_call item)"
      and nn: "novel \<noteq> []"
  shows "\<exists>ic'. deflake_loop w opts item (Suc n) ne novel ic s =
     deflake_loop w opts item n ne novel ic' (after_run w opts (t_p item) StatTriage 0 s)"
  using h nn by (subst deflake_step[OF d st])
    (auto simp: hits_def index_def Let_def Intersection_all)

lemma hits_not_missed: "hits novel info c \<Longrightarrow> \<not> missed info c"
  by (auto simp: hits_def missed_def)


declare deflake_loop.simps(2) [simp del]

lemma deflake_next:
  assumes d: "FlagDedupCover \<in> Flags opts"
      and st: "settled (Exec w (tick s) opts (t_p item))"
      and mh: "missed (result_info (Exec w (tick s) opts (t_p item))) (t_call item)
             \<or> hits novel (result_info (Exec w (tick s) opts (t_p item))) (t_call item)"
      and nn: "novel \<noteq> []"
  shows "\<exists>ic'. deflake_loop w opts item (Suc n) ne novel ic s =
     (if missed (result_info (Exec w (tick s) opts (t_p item))) (t_call item) \<and> ne
      then Inr (GiveUp, after_run w opts (t_p item) StatTriage 0 s)
      else deflake_loop w opts item n
             (ne \<or> missed (result_info (Exec w (tick s) opts (t_p item))) (t_call item))
             novel ic' (after_run w opts (t_p item) StatTriage 0 s))"
proof (cases "missed (result_info (Exec w (tick s) opts (t_p item))) (t_call item)")
  case True
  then show ?thesis by (auto simp add: deflake_miss[OF d st])
next
  case False
  with mh have h: "hits novel (result_info (Exec w (tick s) opts (t_p item))) (t_call item)"
    by simp
  from deflake_hit[OF d st h nn, of n ne ic] False show ?thesis by simp
qed

lemma triage_giveup:
  assumes nc: "\<not> noCover s" and nm: "\<not> t_minimized item"
      and ix: "t_call item < length (Calls (t_p item))"
      and ne: "SignalDiff (corpusSignal s) (t_signal item) \<noteq> []"
      and g: "deflake_run w item s = Inr (GiveUp, s')"
  shows "triageInput w item s = Inr ((), s')
       \<and> reports s s' = [] \<and> corpus s' = corpus s \<and> corpusSignal s' = corpusSignal s
       \<and> workQueue s' = workQueue s"
proof -
  have t: "triageInput w item s = Inr ((), s')"
    using nc nm ix ne g
    by (simp add: triageInput_def deflake_run_def novel_of_def index_def len_def elems_def Let_def)
  from deflake_quiet[of s w "triage_opts (execOpts s)" item 3 False "novel_of s item" "[]"] g
  have q: "quiet s s'" by (simp add: deflake_run_def)
  then have "reports s s' = []" by (rule quiet_reports)
  with t q show ?thesis by (simp add: quiet_def)
qed

subsection \<open>C9: the second run without the call ends triage\<close>

text \<open>Claim C9, amended. In the up to three runs of an item that is not minimized, a run
  in which the call is not executed is tolerated once; triage is abandoned at the second
  such run, whether or not it directly follows the first (the flag
  \<^verbatim>\<open>notexecuted\<close> is never reset). Stated for runs without retries in which every
  executed run shows the whole novel signal: if two of the three runs miss the call,
  \<^verbatim>\<open>triageInput\<close> returns without a report and without touching the corpus, corpus
  signal or the queue; otherwise the loop ends with the novel signal intact.\<close>

theorem triage_gives_up_on_second_miss:
  assumes nc: "\<not> noCover s" and nm: "\<not> t_minimized item"
      and ix: "t_call item < length (Calls (t_p item))"
      and ne: "SignalDiff (corpusSignal s) (t_signal item) \<noteq> []"
      and d: "FlagDedupCover \<in> Flags (execOpts s)"
      and st: "\<forall>j<3. settled (Exec w (tick s + j) (triage_opts (execOpts s)) (t_p item))"
      and mh: "\<forall>j<3. missed (run_info w s item j) (t_call item)
                    \<or> hits (novel_of s item) (run_info w s item j) (t_call item)"
  shows "if two_missed w s item
         then \<exists>s'. deflake_run w item s = Inr (GiveUp, s')
                \<and> triageInput w item s = Inr ((), s')
                \<and> reports s s' = [] \<and> corpus s' = corpus s
                \<and> corpusSignal s' = corpusSignal s \<and> workQueue s' = workQueue s
         else \<exists>ic s'. deflake_run w item s = Inr (Stable (novel_of s item) ic, s')"
proof -
  let ?o = "triage_opts (execOpts s)"
  let ?nv = "novel_of s item"
  let ?c = "t_call item"
  let ?s1 = "after_run w ?o (t_p item) StatTriage 0 s"
  let ?s2 = "after_run w ?o (t_p item) StatTriage 0 ?s1"
  let ?s3 = "after_run w ?o (t_p item) StatTriage 0 ?s2"
  let ?m0 = "missed (run_info w s item 0) ?c"
  let ?m1 = "missed (run_info w s item 1) ?c"
  let ?m2 = "missed (run_info w s item 2) ?c"
  have dd: "FlagDedupCover \<in> Flags ?o" using d by simp
  have nn: "?nv \<noteq> []" using ne by (simp add: novel_of_def)
  have t1: "tick ?s1 = tick s + 1" and t2: "tick ?s2 = tick s + 2" by simp_all
  have st0: "settled (Exec w (tick s) ?o (t_p item))" using st by (auto dest: spec[of _ 0])
  have st1: "settled (Exec w (tick ?s1) ?o (t_p item))"
    unfolding t1 using st by (auto dest: spec[of _ 1])
  have st2: "settled (Exec w (tick ?s2) ?o (t_p item))"
    unfolding t2 using st by (auto dest: spec[of _ 2])
  have r0: "result_info (Exec w (tick s) ?o (t_p item)) = run_info w s item 0"
    by (simp add: run_info_def)
  have r1: "result_info (Exec w (tick ?s1) ?o (t_p item)) = run_info w s item 1"
    by (simp add: run_info_def)
  have r2: "result_info (Exec w (tick ?s2) ?o (t_p item)) = run_info w s item 2"
    by (simp add: run_info_def)
  have mh0: "?m0 \<or> hits ?nv (run_info w s item 0) ?c" using mh by (auto dest: spec[of _ 0])
  have mh1: "?m1 \<or> hits ?nv (run_info w s item 1) ?c" using mh by (auto dest: spec[of _ 1])
  have mh2: "?m2 \<or> hits ?nv (run_info w s item 2) ?c" using mh by (auto dest: spec[of _ 2])
  have "\<exists>ic'. deflake_loop w ?o item (Suc (Suc (Suc 0))) False ?nv [] s =
     (if ?m0 \<and> False then Inr (GiveUp, ?s1)
      else deflake_loop w ?o item (Suc (Suc 0)) (False \<or> ?m0) ?nv ic' ?s1)"
    using deflake_next[OF dd st0 _ nn, of "Suc (Suc 0)" False "[]"] mh0 unfolding r0 by blast
  then obtain ic1 where e0: "deflake_loop w ?o item (Suc (Suc (Suc 0))) False ?nv [] s
      = deflake_loop w ?o item (Suc (Suc 0)) ?m0 ?nv ic1 ?s1"
    by auto
  have "\<exists>ic'. deflake_loop w ?o item (Suc (Suc 0)) ?m0 ?nv ic1 ?s1 =
     (if ?m1 \<and> ?m0 then Inr (GiveUp, ?s2)
      else deflake_loop w ?o item (Suc 0) (?m0 \<or> ?m1) ?nv ic' ?s2)"
    using deflake_next[OF dd st1 _ nn, of "Suc 0" ?m0 ic1] mh1 unfolding r1 by blast
  then obtain ic2 where e1: "deflake_loop w ?o item (Suc (Suc 0)) ?m0 ?nv ic1 ?s1
      = (if ?m1 \<and> ?m0 then Inr (GiveUp, ?s2)
         else deflake_loop w ?o item (Suc 0) (?m0 \<or> ?m1) ?nv ic2 ?s2)"
    by blast
  have "\<exists>ic'. deflake_loop w ?o item (Suc 0) (?m0 \<or> ?m1) ?nv ic2 ?s2 =
     (if ?m2 \<and> (?m0 \<or> ?m1) then Inr (GiveUp, ?s3)
      else deflake_loop w ?o item 0 ((?m0 \<or> ?m1) \<or> ?m2) ?nv ic' ?s3)"
    using deflake_next[OF dd st2 _ nn, of 0 "?m0 \<or> ?m1" ic2] mh2 unfolding r2 by blast
  then obtain ic3 where e2: "deflake_loop w ?o item (Suc 0) (?m0 \<or> ?m1) ?nv ic2 ?s2
      = (if ?m2 \<and> (?m0 \<or> ?m1) then Inr (GiveUp, ?s3)
         else deflake_loop w ?o item 0 ((?m0 \<or> ?m1) \<or> ?m2) ?nv ic3 ?s3)"
    by blast
  have run: "deflake_run w item s
      = (if ?m1 \<and> ?m0 then Inr (GiveUp, ?s2)
         else if ?m2 \<and> (?m0 \<or> ?m1) then Inr (GiveUp, ?s3)
         else Inr (Stable ?nv ic3, ?s3))"
    unfolding deflake_run_def numeral_3_eq_3 e0 e1 e2 by simp
  define m0 where "m0 = missed (run_info w s item 0) (t_call item)"
  define m1 where "m1 = missed (run_info w s item 1) (t_call item)"
  define m2 where "m2 = missed (run_info w s item 2) (t_call item)"
  note run' = run[folded m0_def m1_def m2_def]
  have tm: "two_missed w s item = ((m0 \<and> m1) \<or> (m0 \<and> m2) \<or> (m1 \<and> m2))"
    unfolding two_missed_def m0_def m1_def m2_def ..
  show ?thesis
  proof (cases "two_missed w s item")
    case True
    with tm have "\<exists>s'. deflake_run w item s = Inr (GiveUp, s')"
      unfolding run' by (cases m0; cases m1; cases m2) simp_all
    then obtain s' where g: "deflake_run w item s = Inr (GiveUp, s')" by blast
    from triage_giveup[OF nc nm ix ne g] g True show ?thesis by auto
  next
    case False
    with tm have "deflake_run w item s = Inr (Stable ?nv ic3, ?s3)"
      unfolding run' by (cases m0; cases m1; cases m2) simp_all
    with False show ?thesis by auto
  qed
qed


lemma on_off_facts:
  "execOpts s0 = opts0" "tick s0 = 0" "corpusSignal s0 = {}" "\<not> noCover s0" "corpus s0 = []"
  "t_p item0 = prg0" "t_call item0 = 0" "\<not> t_minimized item0"
  "FlagDedupCover \<in> Flags (triage_opts opts0)"
  "novel_of s0 item0 = [1, 2]"
  "SignalDiff (corpusSignal s0) (t_signal item0) \<noteq> []"
  "t_call item0 < length (Calls (t_p item0))"
  by (simp_all add: s0_def item0_def opts0_def prg0_def novel_of_def SignalDiff_def
      Canonicalize_def)

lemma on_off_answers:
  "settled (Exec on_off_world t (triage_opts opts0) prg0)"
  "result_info (Exec on_off_world t (triage_opts opts0) prg0)
     = (if t = 1 then sig_info [1, 2, 3] else Some [])"
  by (simp_all add: on_off_world_def world_of_def answer_def settled_def result_info_def)

lemma on_off_run:
  "deflake_run on_off_world item0 s0
     = Inr (GiveUp, after_run on_off_world (triage_opts opts0) prg0 StatTriage 0
              (after_run on_off_world (triage_opts opts0) prg0 StatTriage 0
                 (after_run on_off_world (triage_opts opts0) prg0 StatTriage 0 s0)))"
proof -
  let ?o = "triage_opts opts0"
  let ?s1 = "after_run on_off_world ?o prg0 StatTriage 0 s0"
  let ?s2 = "after_run on_off_world ?o prg0 StatTriage 0 ?s1"
  let ?s3 = "after_run on_off_world ?o prg0 StatTriage 0 ?s2"
  note d = on_off_facts(9)
  have one: "deflake_loop on_off_world ?o item0 3 False [1, 2] [] s0
      = deflake_loop on_off_world ?o item0 2 True [1, 2] [] ?s1"
    unfolding numeral_3_eq_3
    by (subst deflake_step[OF d])
       (simp_all add: on_off_facts on_off_answers len_def numeral_2_eq_2)
  have two: "deflake_loop on_off_world ?o item0 2 True [1, 2] [] ?s1
      = deflake_loop on_off_world ?o item0 1 True [1, 2] [1, 2, 3] ?s2"
    unfolding numeral_2_eq_2
    by (subst deflake_step[OF d])
       (simp_all add: on_off_facts on_off_answers sig_info_def len_def index_def elems_def
          Intersection_def Canonicalize_def Let_def)
  have three: "deflake_loop on_off_world ?o item0 1 True [1, 2] [1, 2, 3] ?s2
      = Inr (GiveUp, ?s3)"
    unfolding One_nat_def
    by (subst deflake_step[OF d])
       (simp_all add: on_off_facts on_off_answers len_def)
  show ?thesis
    unfolding deflake_run_def on_off_facts one two three ..
qed

text \<open>Claim C9 as stated fails: with the call not executed in the first run, executed in
  the second and not executed in the third, the two misses are not consecutive and
  triage is abandoned all the same (no report, no corpus entry).\<close>

theorem triage_aborts_on_separated_misses_counterexample:
  "missed (run_info on_off_world s0 item0 0) (t_call item0)
   \<and> \<not> missed (run_info on_off_world s0 item0 1) (t_call item0)
   \<and> missed (run_info on_off_world s0 item0 2) (t_call item0)
   \<and> deflake_run on_off_world item0 s0
       = Inr (GiveUp, after_run on_off_world (triage_opts opts0) prg0 StatTriage 0
              (after_run on_off_world (triage_opts opts0) prg0 StatTriage 0
                 (after_run on_off_world (triage_opts opts0) prg0 StatTriage 0 s0)))
   \<and> reports s0 (final (triageInput on_off_world item0 s0)) = []
   \<and> corpus (final (triageInput on_off_world item0 s0)) = []"
proof -
  have m: "missed (run_info on_off_world s0 item0 0) (t_call item0)"
      "\<not> missed (run_info on_off_world s0 item0 1) (t_call item0)"
      "missed (run_info on_off_world s0 item0 2) (t_call item0)"
    by (simp_all add: run_info_def on_off_facts on_off_answers missed_def len_def
        sig_info_def elems_def)
  from triage_giveup[OF on_off_facts(4) on_off_facts(8) on_off_facts(12) on_off_facts(11)
      on_off_run]
  have "reports s0 (final (triageInput on_off_world item0 s0)) = []
       \<and> corpus (final (triageInput on_off_world item0 s0)) = []"
    by (simp add: on_off_facts)
  with m on_off_run show ?thesis by simp
qed

theorem triage_gives_up_on_second_miss_witness:
  "two_missed on_off_world s0 item0
   \<and> reports s0 (final (triageInput on_off_world item0 s0)) = []
   \<and> workQueue (final (triageInput on_off_world item0 s0)) = []"
proof -
  have ri: "run_info on_off_world s0 item0 j = (if j = 1 then sig_info [1, 2, 3] else Some [])"
    for j
    by (simp add: run_info_def on_off_facts on_off_answers)
  have tm: "two_missed on_off_world s0 item0"
    by (simp add: two_missed_def ri missed_def len_def on_off_facts)
  have d: "FlagDedupCover \<in> Flags (execOpts s0)" by (simp add: s0_def opts0_def)
  have st: "\<forall>j<3. settled (Exec on_off_world (tick s0 + j) (triage_opts (execOpts s0))
      (t_p item0))"
    by (simp add: on_off_facts on_off_answers)
  have mh: "\<forall>j<3. missed (run_info on_off_world s0 item0 j) (t_call item0)
                \<or> hits (novel_of s0 item0) (run_info on_off_world s0 item0 j) (t_call item0)"
    by (simp add: ri missed_def hits_def len_def on_off_facts sig_info_def elems_def)
  from triage_gives_up_on_second_miss[OF on_off_facts(4) on_off_facts(8) on_off_facts(12)
      on_off_facts(11) d st mh] tm
  obtain s' where "triageInput on_off_world item0 s0 = Inr ((), s')"
      "reports s0 s' = []" "workQueue s' = workQueue s0" by auto
  with tm show ?thesis by (simp add: s0_def)
qed

subsection \<open>C7: an idle pass of the loop\<close>

lemma dequeue_None: "dequeue w q = None \<longleftrightarrow> q = []"
  by (simp add: dequeue_def Let_def)

text \<open>Claim C7. In a pass of the loop in which the work queue yields no item: if the
  corpus snapshot is empty or the counter \<open>i\<close> is a multiple of 100, the pass executes
  a freshly generated program with the statistics kind Generate (so at \<open>i = 0\<close> with an
  empty corpus); otherwise it executes, with the kind Fuzz, the mutation of a clone of
  the program at a drawn position \<open>k\<close> of the snapshot, the snapshot being the source of
  the mutation. The draw is \<^verbatim>\<open>rnd.Intn(len(corpus))\<close>; how it is distributed is up to
  the random generator.\<close>

theorem idle_pass_generates_or_fuzzes:
  assumes "dequeue w (workQueue s) = None"
  shows "(length (corpusSnapshot s) = 0 \<or> i mod 100 = 0 \<longrightarrow>
            loop_body w i s
              = path_result PathGenerate
                  (execute w (execOpts s) (Generate w (tick s)) False False False False
                     StatGenerate (s\<lparr>tick := Suc (tick s)\<rparr>)))
       \<and> (\<not> (length (corpusSnapshot s) = 0 \<or> i mod 100 = 0) \<longrightarrow>
            (\<exists>k<length (corpusSnapshot s).
               loop_body w i s
                 = path_result PathFuzz
                     (execute w (execOpts s)
                        (Mutate w (Suc (tick s)) (Clone (corpusSnapshot s ! k)) (corpusSnapshot s))
                        False False False False StatFuzz (s\<lparr>tick := Suc (Suc (tick s))\<rparr>))))"
proof (intro conjI impI)
  assume "length (corpusSnapshot s) = 0 \<or> i mod 100 = 0"
  with assms show "loop_body w i s
              = path_result PathGenerate
                  (execute w (execOpts s) (Generate w (tick s)) False False False False
                     StatGenerate (s\<lparr>tick := Suc (tick s)\<rparr>))"
    by (simp add: loop_body_def path_result_def Let_def)
next
  assume a: "\<not> (length (corpusSnapshot s) = 0 \<or> i mod 100 = 0)"
  let ?k = "Intn w (tick s) (length (corpusSnapshot s)) mod length (corpusSnapshot s)"
  from a have "?k < length (corpusSnapshot s)" by simp
  moreover from a assms have "loop_body w i s
                 = path_result PathFuzz
                     (execute w (execOpts s)
                        (Mutate w (Suc (tick s)) (Clone (corpusSnapshot s ! ?k)) (corpusSnapshot s))
                        False False False False StatFuzz (s\<lparr>tick := Suc (Suc (tick s))\<rparr>))"
    by (simp add: loop_body_def path_result_def Let_def)
  ultimately show "\<exists>k<length (corpusSnapshot s).
               loop_body w i s
                 = path_result PathFuzz
                     (execute w (execOpts s)
                        (Mutate w (Suc (tick s)) (Clone (corpusSnapshot s ! k)) (corpusSnapshot s))
                        False False False False StatFuzz (s\<lparr>tick := Suc (Suc (tick s))\<rparr>))"
    by blast
qed

lemma execute_settled:
  assumes "\<not> (needComps \<and> \<not> compsSupported s)"
      and "FlagDedupCover \<in> Flags (exec_opts eo needComps noCollide)"
      and "settled (Exec w (tick s) (exec_opts eo needComps noCollide) prg)"
  shows "execute w eo prg needComps mi ca noCollide stat s
     = Inr (result_info (Exec w (tick s) (exec_opts eo needComps noCollide) prg),
            hook prg mi ca 0 (elems (result_info (Exec w (tick s) (exec_opts eo needComps noCollide) prg)))
              (after_run w (exec_opts eo needComps noCollide) prg stat 0 s))"
  using assms by (simp add: execute_def executeRaw_settled)

lemma path_of_path_result [simp]: "path_of (path_result path (Inr (info, s))) = Some path"
  by (simp add: path_of_def path_result_def)

theorem idle_pass_generates_or_fuzzes_witness:
  "dequeue steady_world (workQueue s0) = None
   \<and> path_of (loop_body steady_world 0 s0) = Some PathGenerate
   \<and> path_of (loop_body steady_world 7 (s0\<lparr>corpus := [(prg0, [])]\<rparr>)) = Some PathFuzz"
proof -
  let ?s = "s0\<lparr>corpus := [(prg0, [])]\<rparr>"
  have q: "dequeue steady_world (workQueue s0) = None" "dequeue steady_world (workQueue ?s) = None"
    by (simp_all add: s0_def dequeue_def)
  have st: "settled (Exec steady_world t (exec_opts opts0 False False) prg)" for t prg
    by (simp add: steady_world_def world_of_def answer_def settled_def)
  have d: "FlagDedupCover \<in> Flags (exec_opts opts0 False False)"
    by (simp add: exec_opts_def opts0_def)
  have eo: "execOpts s0 = opts0" "execOpts ?s = opts0" by (simp_all add: s0_def)
  have g: "length (corpusSnapshot s0) = 0 \<or> (0::int) mod 100 = 0" by simp
  have f: "\<not> (length (corpusSnapshot ?s) = 0 \<or> (7::int) mod 100 = 0)"
    by (simp add: corpusSnapshot_def)
  from idle_pass_generates_or_fuzzes[OF q(1), of 0] g
  have "path_of (loop_body steady_world 0 s0) = Some PathGenerate"
    by (simp add: eo execute_settled[OF _ d st])
  moreover from idle_pass_generates_or_fuzzes[OF q(2), of 7] f
  have "path_of (loop_body steady_world 7 ?s) = Some PathFuzz"
    by (auto simp add: eo execute_settled[OF _ d st])
  ultimately show ?thesis using q by simp
qed

subsection \<open>Traces only grow\<close>

lemma extends_refl [simp]: "extends s s"
  by (simp add: extends_def)

lemma extends_trans: "extends s s1 \<Longrightarrow> extends s1 s2 \<Longrightarrow> extends s s2"
  by (auto simp: extends_def)

lemma quiet_extends: "quiet s s' \<Longrightarrow> extends s s'"
  by (auto simp: quiet_def extends_def)

lemma new_events_mono:
  "extends s s1 \<Longrightarrow> extends s1 s2 \<Longrightarrow> set (new_events s1 s2) \<subseteq> set (new_events s s2)"
  by (auto simp: extends_def new_events_def)

lemma new_events_mono2:
  "extends s s1 \<Longrightarrow> extends s1 s2 \<Longrightarrow> set (new_events s s1) \<subseteq> set (new_events s s2)"
  by (auto simp: extends_def new_events_def)

text \<open>A run that returned: its last event is the settled answer it returns.\<close>

lemma executeRaw_Inr:
  assumes "executeRaw w opts prg stat s = Inr (info, s')"
  shows "\<exists>r. quiet s s' \<and> last (trace s') = EvExec opts prg r
           \<and> EvExec opts prg r \<in> set (new_events s s')
           \<and> settled r \<and> info = result_info r"
proof -
  have d: "FlagDedupCover \<in> Flags opts"
    using assms by (auto simp: executeRaw_def split: if_splits)
  from executeRaw_cases[OF d, of w s prg stat]
  obtain n where n: "executeRaw w opts prg stat s = run_result w opts prg stat n s" by blast
  let ?r = "Exec w (tick s + n) opts prg"
  from n assms have st: "settled ?r" and i: "info = result_info ?r"
      and s': "s' = after_run w opts prg stat n s"
    by (auto simp: run_result_def Let_def split: if_splits)
  have "EvExec opts prg ?r \<in> set (run_trace w opts prg (tick s) n)"
    using last_in_set[of "run_trace w opts prg (tick s) n"] by simp
  with st i s' show ?thesis by (intro exI[of _ ?r]) simp
qed

lemma hook_extends [simp]: "extends s (hook prg mi ca i cis s)"
  by (simp add: extends_def)

lemma hook_new_events [simp]: "new_events s (hook prg mi ca i cis s') = new_events s s'"
  by (simp add: new_events_def)

lemma execute_Inr:
  assumes "execute w eo prg needComps mi ca noCollide stat s = Inr (info, s')"
  shows "\<exists>r opts. extends s s' \<and> last (trace s') = EvExec opts prg r
           \<and> EvExec opts prg r \<in> set (new_events s s')
           \<and> settled r \<and> info = result_info r"
proof -
  let ?opts = "exec_opts eo needComps noCollide"
  from assms obtain s1 where raw: "executeRaw w ?opts prg stat s = Inr (info, s1)"
      and s': "s' = hook prg mi ca 0 (elems info) s1"
    by (auto simp: execute_def split: if_splits sum.splits)
  from executeRaw_Inr[OF raw] obtain r where r: "quiet s s1"
      "last (trace s1) = EvExec ?opts prg r" "EvExec ?opts prg r \<in> set (new_events s s1)"
      "settled r" "info = result_info r" by blast
  from r(1) have "extends s s'" unfolding s' by (auto simp: quiet_def extends_def)
  with r s' show ?thesis by (intro exI[of _ r] exI[of _ ?opts]) simp
qed

lemma execute_extends: "extends s (final (execute w eo prg needComps mi ca noCollide stat s))"
proof (cases "execute w eo prg needComps mi ca noCollide stat s")
  case (Inl a)
  obtain e s1 where a: "a = (e, s1)" by (cases a)
  from Inl a have "s1 = s \<or> executeRaw w (exec_opts eo needComps noCollide) prg stat s = Inl (e, s1)"
    by (auto simp: execute_def split: if_splits sum.splits)
  then have "extends s s1"
    using executeRaw_quiet_Inl quiet_extends by auto
  with Inl a show ?thesis by simp
next
  case (Inr b)
  obtain info s1 where b: "b = (info, s1)" by (cases b)
  from execute_Inr[of w eo prg needComps mi ca noCollide stat s info s1] Inr b
  show ?thesis by auto
qed

lemma settled_info:
  "settled r \<Longrightarrow> len (result_info r) \<noteq> 0 \<Longrightarrow>
     \<not> r_failed r \<and> r_err r = None \<and> result_info r = r_info r"
  by (auto simp: settled_def result_info_def len_def)

lemma Intersection_length:
  "length (Intersection novel sg) = length novel \<Longrightarrow>
     Intersection novel sg = novel \<and> set novel \<subseteq> set sg"
proof -
  assume "length (Intersection novel sg) = length novel"
  then have "\<forall>x\<in>set novel. x \<in> set sg"
    unfolding Intersection_def by (metis (mono_tags, lifting) filter_True length_filter_less nat_neq_iff filter_id_conv)
  then show ?thesis by (auto simp: Intersection_def intro: filter_True)
qed

lemma triage_pred_accepts:
  assumes "triage_pred w novel p1 call1 s = Inr (True, s')"
  shows "extends s s' \<and> last (trace s') \<in> set (new_events s s')
       \<and> observed novel p1 call1 (last (trace s'))"
proof -
  from assms obtain info where ex: "execute w (execOpts s) p1 False False False True StatMinimize s
      = Inr (info, s')"
    by (auto simp: triage_pred_def Let_def split: sum.splits if_splits option.splits)
  from assms ex have l: "len info \<noteq> 0" and ix: "call1 < len info"
      and sg: "length (Intersection novel (Canonicalize (Signal (elems info ! call1)))) = length novel"
    by (auto simp: triage_pred_def Let_def index_def split: if_splits)
  from execute_Inr[OF ex] obtain r opts where r: "extends s s'"
      "last (trace s') = EvExec opts p1 r" "EvExec opts p1 r \<in> set (new_events s s')"
      "settled r" "info = result_info r" by blast
  from settled_info[OF r(4)] l r(5) have "\<not> r_failed r" "r_err r = None" "info = r_info r"
    by simp_all
  with r ix Intersection_length[OF sg] show ?thesis by simp
qed

lemma triage_pred_extends: "extends s (final (triage_pred w novel p1 call1 s))"
  using execute_extends[of s w "execOpts s" p1 False False False True StatMinimize]
  by (auto simp: triage_pred_def Let_def split: sum.splits option.splits)

lemma Minimize_steps_result:
  assumes "Minimize_steps w (triage_pred w novel) n k cur s = Inr (cur', s')"
  shows "extends s s'
       \<and> (cur' = cur \<or> (\<exists>ev\<in>set (new_events s s'). observed novel (fst cur') (snd cur') ev))"
  using assms
proof (induction n arbitrary: k cur s)
  case 0
  then show ?case by simp
next
  case (Suc n)
  show ?case
  proof (cases "Reduce w k cur")
    case None
    with Suc.prems show ?thesis by simp
  next
    case (Some cand)
    with Suc.prems obtain ok s1 where p: "triage_pred w novel (fst cand) (snd cand) s = Inr (ok, s1)"
        and rec: "Minimize_steps w (triage_pred w novel) n (Suc k) (if ok then cand else cur) s1
                    = Inr (cur', s')"
      by (auto split: sum.splits)
    from triage_pred_extends[of s w novel "fst cand" "snd cand"] p have e1: "extends s s1" by simp
    from Suc.IH[OF rec] have e2: "extends s1 s'"
        and c: "cur' = (if ok then cand else cur)
              \<or> (\<exists>ev\<in>set (new_events s1 s'). observed novel (fst cur') (snd cur') ev)"
      by simp_all
    from e1 e2 have e: "extends s s'" by (rule extends_trans)
    from c show ?thesis
    proof
      assume eq: "cur' = (if ok then cand else cur)"
      show ?thesis
      proof (cases ok)
        case True
        with p have "triage_pred w novel (fst cand) (snd cand) s = Inr (True, s1)" by simp
        from triage_pred_accepts[OF this]
        have "last (trace s1) \<in> set (new_events s s1)"
            "observed novel (fst cand) (snd cand) (last (trace s1))" by simp_all
        moreover from new_events_mono2[OF e1 e2]
        have "set (new_events s s1) \<subseteq> set (new_events s s')" .
        ultimately show ?thesis using e eq True by auto
      next
        case False
        with eq e show ?thesis by simp
      qed
    next
      assume "\<exists>ev\<in>set (new_events s1 s'). observed novel (fst cur') (snd cur') ev"
      with new_events_mono[OF e1 e2] e show ?thesis by blast
    qed
  qed
qed

lemma set_Intersection: "set (Intersection a b) \<subseteq> set a"
  by (auto simp: Intersection_def)

lemma deflake_stable_subset:
  "deflake_loop w opts item n ne novel ic s = Inr (Stable nf icf, s') \<Longrightarrow> set nf \<subseteq> set novel"
proof (induction n arbitrary: ne novel ic s)
  case 0
  then show ?case by simp
next
  case (Suc n)
  from Suc.prems obtain info s1 where raw: "executeRaw w opts (t_p item) StatTriage s = Inr (info, s1)"
    by (auto simp: deflake_loop.simps(2) split: sum.splits)
  show ?case
  proof (cases "len info = 0")
    case True
    with Suc.prems raw have "deflake_loop w opts item n True novel ic s1 = Inr (Stable nf icf, s')"
      by (auto simp: deflake_loop.simps(2) split: if_splits)
    from Suc.IH[OF this] show ?thesis .
  next
    case False
    with Suc.prems raw obtain ci where ci: "index info (t_call item) = Some ci"
      by (auto simp: deflake_loop.simps(2) split: option.splits)
    show ?thesis
    proof (cases "length (Signal ci) = 0")
      case True
      with Suc.prems raw False ci
      have "deflake_loop w opts item n True novel ic s1 = Inr (Stable nf icf, s')"
        by (auto simp: deflake_loop.simps(2) split: if_splits)
      from Suc.IH[OF this] show ?thesis .
    next
      case nz: False
      let ?nv = "Intersection novel (Canonicalize (Signal ci))"
      from Suc.prems raw False ci nz
      obtain ic' where "deflake_loop w opts item n ne ?nv ic' s1 = Inr (Stable nf icf, s')"
        by (auto simp: deflake_loop.simps(2) Let_def split: if_splits)
      from Suc.IH[OF this] set_Intersection[of novel "Canonicalize (Signal ci)"]
      show ?thesis by blast
    qed
  qed
qed

lemma deflake_extends: "extends s (final (deflake_loop w opts item n ne novel ic s))"
  by (rule quiet_extends[OF deflake_quiet])

lemma deflake_stable_observed:
  assumes "2 \<le> n \<or> (1 \<le> n \<and> ne)"
      and "deflake_loop w opts item n ne novel ic s = Inr (Stable nf icf, s')"
  shows "\<exists>ev\<in>set (new_events s s'). observed nf (t_p item) (t_call item) ev"
  using assms
proof (induction n arbitrary: ne novel ic s)
  case 0
  then show ?case by simp
next
  case (Suc n)
  from Suc.prems(2) obtain info s1 where raw: "executeRaw w opts (t_p item) StatTriage s = Inr (info, s1)"
    by (auto simp: deflake_loop.simps(2) split: sum.splits)
  from executeRaw_Inr[OF raw] obtain r where r: "quiet s s1"
      "EvExec opts (t_p item) r \<in> set (new_events s s1)" "settled r" "info = result_info r"
    by blast
  from r(1) have e1: "extends s s1" by (rule quiet_extends)
  have miss: ?case
    if rec: "deflake_loop w opts item n True novel ic s1 = Inr (Stable nf icf, s')" and "\<not> ne"
  proof -
    from that Suc.prems(1) have "2 \<le> n \<or> (1 \<le> n \<and> True)" by auto
    from Suc.IH[OF this rec]
    obtain ev where ev: "ev \<in> set (new_events s1 s')" "observed nf (t_p item) (t_call item) ev"
      by blast
    from deflake_extends[of s1 w opts item n True novel ic] rec have "extends s1 s'" by simp
    from new_events_mono[OF e1 this] ev show ?thesis by blast
  qed
  show ?case
  proof (cases "len info = 0")
    case True
    with Suc.prems(2) raw have "\<not> ne"
        "deflake_loop w opts item n True novel ic s1 = Inr (Stable nf icf, s')"
      by (auto simp: deflake_loop.simps(2) split: if_splits)
    then show ?thesis using miss by blast
  next
    case False
    with Suc.prems(2) raw obtain ci where ci: "index info (t_call item) = Some ci"
      by (auto simp: deflake_loop.simps(2) split: option.splits)
    show ?thesis
    proof (cases "length (Signal ci) = 0")
      case True
      with Suc.prems(2) raw False ci have "\<not> ne"
          "deflake_loop w opts item n True novel ic s1 = Inr (Stable nf icf, s')"
        by (auto simp: deflake_loop.simps(2) split: if_splits)
      then show ?thesis using miss by blast
    next
      case nz: False
      let ?nv = "Intersection novel (Canonicalize (Signal ci))"
      from Suc.prems(2) raw False ci nz
      obtain ic' where rec: "deflake_loop w opts item n ne ?nv ic' s1 = Inr (Stable nf icf, s')"
        by (auto simp: deflake_loop.simps(2) Let_def split: if_splits)
      from deflake_stable_subset[OF rec] have sub: "set nf \<subseteq> set ?nv" .
      then have sub2: "set nf \<subseteq> set (Canonicalize (Signal ci))"
        by (auto simp: Intersection_def)
      from ci have ix: "t_call item < len info" and cie: "ci = elems info ! t_call item"
        by (auto simp: index_def split: if_splits)
      from settled_info[OF r(3)] False r(4)
      have ok: "\<not> r_failed r" "r_err r = None" "info = r_info r" by simp_all
      have "Intersection nf (Canonicalize (Signal ci)) = nf"
        using sub2 by (auto simp: Intersection_def intro: filter_True)
      with sub2 ok ix cie have "observed nf (t_p item) (t_call item) (EvExec opts (t_p item) r)"
        by simp
      moreover from deflake_extends[of s1 w opts item n ne ?nv ic'] rec have "extends s1 s'" by simp
      from new_events_mono2[OF e1 this] r(2)
      have "EvExec opts (t_p item) r \<in> set (new_events s s')" by blast
      ultimately show ?thesis by blast
    qed
  qed
qed

subsection \<open>C4: minimization keeps the novel signal\<close>

text \<open>Claim C4. For an item that is not minimized, let \<open>novel\<close> be the signal the three
  runs leave (the signal locked in before minimization). The predicate of lines 148 to
  161 accepts a candidate only if the execution it has just made of the candidate
  returned, for the call, a canonicalized signal whose intersection with \<open>novel\<close> is
  all of \<open>novel\<close>. So the program that minimization returns (the item's own
  program, or a candidate the predicate accepted) was executed during this triage with
  a canonicalized signal for its call that is a superset of \<open>novel\<close>.\<close>

theorem minimization_keeps_the_novel_signal:
  assumes dr: "deflake_run w item s = Inr (Stable novel ic, s1)"
      and mi: "Minimize w (t_p item) (t_call item) (triage_pred w novel) s1
                = Inr ((p', call'), s2)"
  shows "(\<forall>p1 call1 sa sb. triage_pred w novel p1 call1 sa = Inr (True, sb)
            \<longrightarrow> observed novel p1 call1 (last (trace sb)))
       \<and> (\<exists>ev\<in>set (new_events s s2). observed novel p' call' ev)"
proof
  show "\<forall>p1 call1 sa sb. triage_pred w novel p1 call1 sa = Inr (True, sb)
            \<longrightarrow> observed novel p1 call1 (last (trace sb))"
    using triage_pred_accepts by blast
next
  from dr have d: "deflake_loop w (triage_opts (execOpts s)) item 3 False (novel_of s item) [] s
      = Inr (Stable novel ic, s1)"
    by (simp add: deflake_run_def)
  from deflake_stable_observed[OF _ d]
  obtain ev0 where ev0: "ev0 \<in> set (new_events s s1)" "observed novel (t_p item) (t_call item) ev0"
    by auto
  from deflake_extends[of s w "triage_opts (execOpts s)" item 3 False "novel_of s item" "[]"] d
  have e1: "extends s s1" by simp
  from mi have "Minimize_steps w (triage_pred w novel) (ReduceBound w (t_p item) (t_call item)) 0
      (t_p item, t_call item) s1 = Inr ((p', call'), s2)"
    by (simp add: Minimize_def)
  from Minimize_steps_result[OF this]
  have e2: "extends s1 s2"
      and c: "(p', call') = (t_p item, t_call item)
            \<or> (\<exists>ev\<in>set (new_events s1 s2). observed novel p' call' ev)"
    by simp_all
  from c show "\<exists>ev\<in>set (new_events s s2). observed novel p' call' ev"
  proof
    assume "(p', call') = (t_p item, t_call item)"
    with ev0 new_events_mono2[OF e1 e2] show ?thesis by auto
  next
    assume "\<exists>ev\<in>set (new_events s1 s2). observed novel p' call' ev"
    with new_events_mono[OF e1 e2] show ?thesis by blast
  qed
qed

lemma reducing_answers:
  "settled (Exec reducing_world t opts prg)"
  "result_info (Exec reducing_world t opts prg) = sig_info [1, 2, 3]"
  by (simp_all add: reducing_world_def steady_world_def world_of_def answer_def settled_def
      result_info_def)

lemma reducing_steps:
  "Reduce reducing_world 0 cur = Some (prg1, 0)"
  "ReduceBound reducing_world prg c = Suc 0"
  by (simp_all add: reducing_world_def)

lemma reducing_deflake:
  "deflake_run reducing_world item0 s0
     = Inr (Stable [1, 2] [1, 2, 3],
            after_run reducing_world (triage_opts opts0) prg0 StatTriage 0
              (after_run reducing_world (triage_opts opts0) prg0 StatTriage 0
                 (after_run reducing_world (triage_opts opts0) prg0 StatTriage 0 s0)))"
proof -
  let ?o = "triage_opts opts0"
  let ?s1 = "after_run reducing_world ?o prg0 StatTriage 0 s0"
  let ?s2 = "after_run reducing_world ?o prg0 StatTriage 0 ?s1"
  let ?s3 = "after_run reducing_world ?o prg0 StatTriage 0 ?s2"
  note d = on_off_facts(9)
  have one: "deflake_loop reducing_world ?o item0 3 False [1, 2] [] s0
      = deflake_loop reducing_world ?o item0 2 False [1, 2] [1, 2, 3] ?s1"
    unfolding numeral_3_eq_3
    by (subst deflake_step[OF d])
       (simp_all add: on_off_facts reducing_answers sig_info_def len_def index_def elems_def
          Intersection_def Canonicalize_def Let_def numeral_2_eq_2)
  have two: "deflake_loop reducing_world ?o item0 2 False [1, 2] [1, 2, 3] ?s1
      = deflake_loop reducing_world ?o item0 1 False [1, 2] [1, 2, 3] ?s2"
    unfolding numeral_2_eq_2
    by (subst deflake_step[OF d])
       (simp_all add: on_off_facts reducing_answers sig_info_def len_def index_def elems_def
          Intersection_def Canonicalize_def Union_def Let_def)
  have three: "deflake_loop reducing_world ?o item0 1 False [1, 2] [1, 2, 3] ?s2
      = Inr (Stable [1, 2] [1, 2, 3], ?s3)"
    unfolding One_nat_def
    by (subst deflake_step[OF d])
       (simp_all add: on_off_facts reducing_answers sig_info_def len_def index_def elems_def
          Intersection_def Canonicalize_def Union_def Let_def)
  show ?thesis
    unfolding deflake_run_def on_off_facts one two three ..
qed

lemma reducing_pred:
  assumes "execOpts s = opts0"
  shows "triage_pred reducing_world [1, 2] prg1 0 s
     = Inr (True, hook prg1 False False 0 (elems (sig_info [1, 2, 3]))
              (after_run reducing_world (exec_opts opts0 False True) prg1 StatMinimize 0 s))"
proof -
  have d: "FlagDedupCover \<in> Flags (exec_opts opts0 False True)"
    by (simp add: exec_opts_def opts0_def)
  have ex: "execute reducing_world opts0 prg1 False False False True StatMinimize s
      = Inr (sig_info [1, 2, 3], hook prg1 False False 0 (elems (sig_info [1, 2, 3]))
              (after_run reducing_world (exec_opts opts0 False True) prg1 StatMinimize 0 s))"
    using execute_settled[OF _ d reducing_answers(1)]
    by (simp add: reducing_answers)
  show ?thesis
    unfolding triage_pred_def assms ex
    by (simp add: sig_info_def len_def index_def elems_def Intersection_def Canonicalize_def)
qed

theorem minimization_keeps_the_novel_signal_witness:
  "Minimize reducing_world (t_p item0) (t_call item0) (triage_pred reducing_world [1, 2])
       (final (deflake_run reducing_world item0 s0))
     = Inr ((prg1, 0),
            final (Minimize reducing_world (t_p item0) (t_call item0)
                     (triage_pred reducing_world [1, 2])
                     (final (deflake_run reducing_world item0 s0))))
   \<and> (\<exists>ev\<in>set (new_events s0
                   (final (Minimize reducing_world (t_p item0) (t_call item0)
                             (triage_pred reducing_world [1, 2])
                             (final (deflake_run reducing_world item0 s0))))).
         observed [1, 2] prg1 0 ev)"
proof -
  let ?s3 = "after_run reducing_world (triage_opts opts0) prg0 StatTriage 0
              (after_run reducing_world (triage_opts opts0) prg0 StatTriage 0
                 (after_run reducing_world (triage_opts opts0) prg0 StatTriage 0 s0))"
  let ?s4 = "hook prg1 False False 0 (elems (sig_info [1, 2, 3]))
              (after_run reducing_world (exec_opts opts0 False True) prg1 StatMinimize 0 ?s3)"
  have eo: "execOpts ?s3 = opts0" by (simp add: s0_def)
  have mi: "Minimize reducing_world (t_p item0) (t_call item0) (triage_pred reducing_world [1, 2]) ?s3
      = Inr ((prg1, 0), ?s4)"
    by (simp add: Minimize_def reducing_steps reducing_pred[OF eo])
  from minimization_keeps_the_novel_signal[OF reducing_deflake mi]
  have "\<exists>ev\<in>set (new_events s0 ?s4). observed [1, 2] prg1 0 ev" by blast
  then show ?thesis by (simp add: reducing_deflake mi)
qed

subsection \<open>The invariant, function by function\<close>

lemma covered_mono: "maxSignal s \<subseteq> maxSignal s' \<Longrightarrow> covered s item \<Longrightarrow> covered s' item"
  by (cases item) auto

lemma grows_refl: "signal_inv s \<Longrightarrow> grows s s"
  by (simp add: grows_def)

lemma grows_trans: "grows s s1 \<Longrightarrow> grows s1 s2 \<Longrightarrow> grows s s2"
  by (auto simp: grows_def)

lemma quiet_grows: "signal_inv s \<Longrightarrow> quiet s s' \<Longrightarrow> grows s s'"
  by (auto simp: grows_def signal_inv_def quiet_def list_all_iff intro: covered_mono)

lemma hook_grows: "signal_inv s \<Longrightarrow> grows s (hook prg mi ca i cis s)"
proof (induction cis arbitrary: i s)
  case Nil
  then show ?case by (simp add: grows_refl)
next
  case (Cons ci cis)
  show ?case
  proof (cases "SignalNew (maxSignal s) (Signal ci)")
    case False
    with Cons show ?thesis by simp
  next
    case True
    let ?diff = "SignalDiff (maxSignal s) (Signal ci)"
    let ?s3 = "s\<lparr>maxSignal := SignalAdd (maxSignal s) ?diff,
                newSignal := SignalAdd (newSignal s) ?diff,
                workQueue := enqueue (workQueue s)
                  (Triage \<lparr>t_p = Clone prg, t_call = i, t_signal = Signal ci,
                     t_candidate = ca, t_minimized = mi\<rparr>)\<rparr>"
    have m: "maxSignal s \<subseteq> maxSignal ?s3" by (auto simp: SignalAdd_def)
    have c: "set (Signal ci) \<subseteq> maxSignal ?s3"
      by (auto simp: SignalAdd_def SignalDiff_def)
    have old: "list_all (covered ?s3) (workQueue s)"
      using Cons.prems m unfolding signal_inv_def list_all_iff
      by (meson covered_mono)
    have inv3: "signal_inv ?s3"
      using Cons.prems c old
      by (auto simp: signal_inv_def SignalAdd_def SignalDiff_def enqueue_def)
    from Cons.IH[OF inv3] have "grows ?s3 (hook prg mi ca (Suc i) cis ?s3)" .
    moreover from inv3 m have "grows s ?s3" by (simp add: grows_def)
    ultimately have "grows s (hook prg mi ca (Suc i) cis ?s3)" by (rule grows_trans[rotated])
    with True show ?thesis by (simp add: Let_def)
  qed
qed

lemma execute_grows:
  assumes "signal_inv s"
  shows "grows s (final (execute w eo prg needComps mi ca noCollide stat s))"
proof (cases "needComps \<and> \<not> compsSupported s")
  case True
  with assms show ?thesis by (simp add: execute_def grows_refl)
next
  case False
  show ?thesis
  proof (cases "executeRaw w (exec_opts eo needComps noCollide) prg stat s")
    case (Inl a)
    obtain e s1 where a: "a = (e, s1)" by (cases a)
    with Inl False assms show ?thesis
      by (auto simp add: execute_def quiet_grows executeRaw_quiet_Inl)
  next
    case (Inr b)
    obtain info s1 where b: "b = (info, s1)" by (cases b)
    with Inr have "quiet s s1" by (simp add: executeRaw_quiet_Inr)
    with assms have g1: "grows s s1" by (rule quiet_grows)
    then have "signal_inv s1" by (simp add: grows_def)
    from hook_grows[OF this] have "grows s1 (hook prg mi ca 0 (elems info) s1)" .
    with g1 have "grows s (hook prg mi ca 0 (elems info) s1)" by (rule grows_trans)
    with Inr b False show ?thesis by (auto simp add: execute_def)
  qed
qed

lemma triage_pred_grows:
  assumes "signal_inv s"
  shows "grows s (final (triage_pred w novel p1 call1 s))"
  using execute_grows[OF assms, of w "execOpts s" p1 False False False True StatMinimize]
  by (auto simp: triage_pred_def Let_def split: sum.splits option.splits)

lemma Minimize_steps_grows:
  "signal_inv s \<Longrightarrow> grows s (final (Minimize_steps w (triage_pred w novel) n k cur s))"
proof (induction n arbitrary: k cur s)
  case 0
  then show ?case by (simp add: grows_refl)
next
  case (Suc n)
  show ?case
  proof (cases "Reduce w k cur")
    case None
    with Suc.prems show ?thesis by (simp add: grows_refl)
  next
    case (Some cand)
    from triage_pred_grows[OF Suc.prems, of w novel "fst cand" "snd cand"]
    have g: "grows s (final (triage_pred w novel (fst cand) (snd cand) s))" .
    show ?thesis
    proof (cases "triage_pred w novel (fst cand) (snd cand) s")
      case (Inl a)
      obtain e s1 where "a = (e, s1)" by (cases a)
      with Inl Some g show ?thesis by simp
    next
      case (Inr b)
      obtain ok s1 where b: "b = (ok, s1)" by (cases b)
      with Inr g have g1: "grows s s1" by simp
      then have "signal_inv s1" by (simp add: grows_def)
      from Suc.IH[OF this] g1
      have "grows s (final (Minimize_steps w (triage_pred w novel) n (Suc k)
                (if ok then cand else cur) s1))"
        by (rule grows_trans[rotated])
      with Inr b Some show ?thesis by simp
    qed
  qed
qed

lemma publish_grows:
  assumes "signal_inv s" and "set (t_signal item) \<subseteq> maxSignal s"
  shows "grows s (final (publish w item callMeta ic s))"
  using assms
  by (auto simp: publish_def Let_def grows_def signal_inv_def SignalAdd_def
      addInputToCorpus_def enqueue_def list_all_iff intro: covered_mono)


lemma Minimize_grows:
  "signal_inv s \<Longrightarrow> grows s (final (Minimize w p0 c0 (triage_pred w novel) s))"
  by (simp add: Minimize_def Minimize_steps_grows)

lemma triageInput_grows:
  assumes inv: "signal_inv s" and cov: "set (t_signal item) \<subseteq> maxSignal s"
  shows "grows s (final (triageInput w item s))"
proof (cases "noCover s \<or> length (SignalDiff (corpusSignal s) (t_signal item)) = 0
    \<or> index (Some (Calls (t_p item))) (t_call item) = None")
  case True
  with inv show ?thesis
    by (auto simp: triageInput_def Let_def grows_refl)
next
  case False
  then obtain c where c: "index (Some (Calls (t_p item))) (t_call item) = Some c" by auto
  let ?o = "triage_opts (execOpts s)"
  let ?nv = "Canonicalize (SignalDiff (corpusSignal s) (t_signal item))"
  show ?thesis
  proof (cases "t_minimized item")
    case True
    have q: "quiet s (final (harvest w ?o item 3 s))" by (rule harvest_quiet)
    show ?thesis
    proof (cases "harvest w ?o item 3 s")
      case (Inl a)
      obtain e s1 where "a = (e, s1)" by (cases a)
      with Inl q False True c inv show ?thesis
        by (simp add: triageInput_def Let_def quiet_grows)
    next
      case (Inr b)
      obtain ic s1 where b: "b = (ic, s1)" by (cases b)
      with Inr q have q1: "quiet s s1" by simp
      with inv have g1: "grows s s1" by (rule quiet_grows)
      with cov have "signal_inv s1" "set (t_signal item) \<subseteq> maxSignal s1"
        by (auto simp: grows_def)
      from publish_grows[OF this] g1
      have "grows s (final (publish w item (Meta c) ic s1))" by (rule grows_trans[rotated])
      with Inr b False True c show ?thesis by (simp add: triageInput_def Let_def)
    qed
  next
    case nm: False
    have q: "quiet s (final (deflake_loop w ?o item 3 False ?nv [] s))" by (rule deflake_quiet)
    show ?thesis
    proof (cases "deflake_loop w ?o item 3 False ?nv [] s")
      case (Inl a)
      obtain e s1 where "a = (e, s1)" by (cases a)
      with Inl q False nm c inv show ?thesis
        by (simp add: triageInput_def Let_def quiet_grows)
    next
      case (Inr b)
      obtain res s1 where b: "b = (res, s1)" by (cases b)
      with Inr q have q1: "quiet s s1" by simp
      with inv have g1: "grows s s1" by (rule quiet_grows)
      then have inv1: "signal_inv s1" by (simp add: grows_def)
      show ?thesis
      proof (cases res)
        case GiveUp
        with Inr b False nm c g1 show ?thesis by (simp add: triageInput_def Let_def)
      next
        case Vanished
        with Inr b False nm c g1 show ?thesis by (simp add: triageInput_def Let_def)
      next
        case (Stable nf ic)
        let ?m = "Minimize w (t_p item) (t_call item) (triage_pred w nf) s1"
        from Minimize_grows[OF inv1] g1 have g2: "grows s (final ?m)" by (rule grows_trans[rotated])
        show ?thesis
        proof (cases ?m)
          case (Inl a)
          obtain e s2 where "a = (e, s2)" by (cases a)
          with Inl g2 Inr b Stable False nm c show ?thesis
            by (simp add: triageInput_def Let_def)
        next
          case mr: (Inr r)
          obtain p' call' s2 where r: "r = ((p', call'), s2)" by (cases r) auto
          with mr g2 have g2': "grows s s2" by simp
          with cov have "signal_inv s2"
              "set (t_signal (item\<lparr>t_p := p', t_call := call'\<rparr>)) \<subseteq> maxSignal s2"
            by (auto simp: grows_def)
          from publish_grows[OF this] g2'
          have "grows s (final (publish w (item\<lparr>t_p := p', t_call := call'\<rparr>) (Meta c) ic s2))"
            by (rule grows_trans[rotated])
          with mr r Inr b Stable False nm c show ?thesis
            by (simp add: triageInput_def Let_def)
        qed
      qed
    qed
  qed
qed

lemma failCall_from_quiet: "quiet s (final (failCall_from w prg call n s))"
proof (induction k \<equiv> "100 - n" arbitrary: n s)
  case 0
  then have "\<not> n < 100" by simp
  then show ?case by (subst failCall_from.simps) simp
next
  case (Suc k)
  then have lt: "n < 100" and k: "k = 100 - (n + 1)" by simp_all
  let ?opts = "fault_opts (execOpts s) call n"
  show ?case
  proof (cases "executeRaw w ?opts prg StatSmash s")
    case (Inl a)
    obtain e s1 where "a = (e, s1)" by (cases a)
    with Inl lt show ?thesis
      by (subst failCall_from.simps) (simp add: executeRaw_quiet_Inl)
  next
    case (Inr b)
    obtain info s1 where b: "b = (info, s1)" by (cases b)
    with Inr have q1: "quiet s s1" by (simp add: executeRaw_quiet_Inr)
    from Suc.hyps(1)[OF k, of s1] q1
    have "quiet s (final (failCall_from w prg call (n + 1) s1))"
      by (rule quiet_trans[rotated])
    with Inr b lt q1 show ?thesis
      by (subst failCall_from.simps) (auto simp: Let_def)
  qed
qed


lemma quiet_tick [simp]: "quiet s (s\<lparr>tick := t\<rparr>)"
  by (simp add: quiet_def)

lemma smash_mutations_grows:
  "signal_inv s \<Longrightarrow> grows s (final (smash_mutations w prg snap n s))"
proof (induction n arbitrary: s)
  case 0
  then show ?case by (simp add: grows_refl)
next
  case (Suc n)
  let ?s1 = "s\<lparr>tick := Suc (tick s)\<rparr>"
  let ?p1 = "Mutate w (tick s) (Clone prg) snap"
  let ?e = "execute w (execOpts ?s1) ?p1 False False False False StatSmash ?s1"
  from Suc.prems have g1: "grows s ?s1" by (simp add: quiet_grows)
  then have "signal_inv ?s1" by (simp add: grows_def)
  from execute_grows[OF this] g1 have g2: "grows s (final ?e)" by (rule grows_trans[rotated])
  show ?case
  proof (cases ?e)
    case (Inl a)
    obtain e s2 where "a = (e, s2)" by (cases a)
    with Inl g2 show ?thesis by (simp add: Let_def)
  next
    case (Inr b)
    obtain info s2 where b: "b = (info, s2)" by (cases b)
    with Inr g2 have g: "grows s s2" by simp
    then have "signal_inv s2" by (simp add: grows_def)
    from Suc.IH[OF this] g have "grows s (final (smash_mutations w prg snap n s2))"
      by (rule grows_trans[rotated])
    with Inr b show ?thesis by (simp add: Let_def)
  qed
qed

lemma hint_mutants_grows:
  "signal_inv s \<Longrightarrow> grows s (final (hint_mutants w ms s))"
proof (induction ms arbitrary: s)
  case Nil
  then show ?case by (simp add: grows_refl)
next
  case (Cons m ms)
  let ?e = "execute w (execOpts s) m False False False False StatHint s"
  from execute_grows[OF Cons.prems] have g2: "grows s (final ?e)" .
  show ?case
  proof (cases ?e)
    case (Inl a)
    obtain e s2 where "a = (e, s2)" by (cases a)
    with Inl g2 show ?thesis by simp
  next
    case (Inr b)
    obtain info s2 where b: "b = (info, s2)" by (cases b)
    with Inr g2 have g: "grows s s2" by simp
    then have "signal_inv s2" by (simp add: grows_def)
    from Cons.IH[OF this] g have "grows s (final (hint_mutants w ms s2))"
      by (rule grows_trans[rotated])
    with Inr b show ?thesis by simp
  qed
qed

lemma executeHintSeed_grows:
  assumes "signal_inv s"
  shows "grows s (final (executeHintSeed w prg call s))"
proof -
  let ?e = "execute w (execOpts s) prg True False False True StatSeed s"
  from execute_grows[OF assms] have g2: "grows s (final ?e)" .
  show ?thesis
  proof (cases ?e)
    case (Inl a)
    obtain e s2 where "a = (e, s2)" by (cases a)
    with Inl g2 show ?thesis by (simp add: executeHintSeed_def)
  next
    case (Inr b)
    obtain info s2 where b: "b = (info, s2)" by (cases b)
    with Inr g2 have g: "grows s s2" by simp
    then have "signal_inv s2" by (simp add: grows_def)
    from hint_mutants_grows[OF this] g
    have "grows s (final (hint_mutants w ms s2))" for ms
      by (rule grows_trans[rotated])
    with Inr b g show ?thesis
      by (simp add: executeHintSeed_def split: option.splits)
  qed
qed

lemma smashInput_grows:
  assumes "signal_inv s"
  shows "grows s (final (smashInput w prg call s))"
proof -
  let ?f = "if faultInjectionEnabled s then failCall w prg call s else Inr ((), s)"
  have "quiet s (final ?f)"
    by (simp add: failCall_def failCall_from_quiet)
  with assms have g1: "grows s (final ?f)" by (rule quiet_grows)
  show ?thesis
  proof (cases ?f)
    case (Inl a)
    obtain e s1 where "a = (e, s1)" by (cases a)
    with Inl g1 show ?thesis by (simp add: smashInput_def)
  next
    case (Inr b)
    obtain u s1 where b: "b = (u, s1)" by (cases b)
    with Inr g1 have g: "grows s s1" by simp
    then have "signal_inv s1" by (simp add: grows_def)
    let ?m = "smash_mutations w prg (corpusSnapshot s1) 100 s1"
    from smash_mutations_grows[OF \<open>signal_inv s1\<close>] g have g2: "grows s (final ?m)"
      by (rule grows_trans[rotated])
    show ?thesis
    proof (cases ?m)
      case (Inl a)
      obtain e s2 where "a = (e, s2)" by (cases a)
      with Inl g2 Inr b show ?thesis by (simp add: smashInput_def Let_def)
    next
      case mr: (Inr c)
      obtain u' s2 where c: "c = (u', s2)" by (cases c)
      with mr g2 have g': "grows s s2" by simp
      then have "signal_inv s2" by (simp add: grows_def)
      from executeHintSeed_grows[OF this] g'
      have "grows s (final (executeHintSeed w prg call s2))" by (rule grows_trans[rotated])
      with mr c g' Inr b show ?thesis by (simp add: smashInput_def Let_def)
    qed
  qed
qed

lemma dequeue_Some:
  assumes "dequeue w q = Some (item, q')"
  shows "item \<in> set q \<and> set q' \<subseteq> set q"
proof -
  from assms have ne: "q \<noteq> []" by (auto simp: dequeue_def split: if_splits)
  let ?k = "Choose w q mod length q"
  from ne have k: "?k < length q" by simp
  from assms ne have "item = q ! ?k" "q' = take ?k q @ drop (Suc ?k) q"
    by (auto simp: dequeue_def Let_def)
  with k show ?thesis
    by (auto dest: in_set_takeD in_set_dropD)
qed

lemma final_case_unit [simp]:
  "final (case r of Inl e \<Rightarrow> Inl e | Inr (u, s1) \<Rightarrow> Inr (v, s1)) = final r"
  by (auto simp: final_def split: sum.splits)

lemma loop_body_grows:
  assumes "signal_inv s"
  shows "grows s (final (loop_body w i s))"
proof (cases "dequeue w (workQueue s)")
  case None
  let ?s1 = "s\<lparr>tick := Suc (tick s)\<rparr>"
  let ?s2 = "s\<lparr>tick := Suc (Suc (tick s))\<rparr>"
  from assms have g1: "grows s ?s1" and g2: "grows s ?s2" by (simp_all add: quiet_grows)
  then have i1: "signal_inv ?s1" and i2: "signal_inv ?s2" by (simp_all add: grows_def)
  have a: "grows s (final (execute w eo prg nc mi ca ncl stat ?s1))" for eo prg nc mi ca ncl stat
    using execute_grows[OF i1] g1 by (rule grows_trans[rotated])
  have b: "grows s (final (execute w eo prg nc mi ca ncl stat ?s2))" for eo prg nc mi ca ncl stat
    using execute_grows[OF i2] g2 by (rule grows_trans[rotated])
  from None a b show ?thesis
    by (simp add: loop_body_def Let_def)
next
  case (Some x)
  obtain item q' where x: "x = (item, q')" by (cases x)
  let ?s0 = "s\<lparr>workQueue := q'\<rparr>"
  from dequeue_Some[of w "workQueue s" item q'] Some x
  have mem: "item \<in> set (workQueue s)" and sub: "set q' \<subseteq> set (workQueue s)" by simp_all
  have cov_eq: "covered ?s0 it = covered s it" for it by (cases it) simp_all
  from assms sub have inv0: "signal_inv ?s0"
    by (auto simp: signal_inv_def list_all_iff cov_eq)
  then have g0: "grows s ?s0" by (simp add: grows_def)
  from assms mem have cov: "covered s item" by (auto simp: signal_inv_def list_all_iff)
  have "grows ?s0 (final (case item of
                  Triage t \<Rightarrow> triageInput w t ?s0
                | Candidate prg minimized \<Rightarrow>
                    (case execute w (execOpts ?s0) prg False minimized True False
                            StatCandidate ?s0 of
                       Inl e \<Rightarrow> Inl e
                     | Inr (info, s1) \<Rightarrow> Inr ((), s1))
                | Smash prg call \<Rightarrow> smashInput w prg call ?s0))"
  proof (cases item)
    case (Triage t)
    with cov have "set (t_signal t) \<subseteq> maxSignal ?s0" by simp
    from triageInput_grows[OF inv0 this] Triage show ?thesis by simp
  next
    case (Candidate prg minimized)
    with execute_grows[OF inv0, of w "execOpts ?s0" prg False minimized True False StatCandidate]
    show ?thesis by simp
  next
    case (Smash prg call)
    with smashInput_grows[OF inv0] show ?thesis by simp
  qed
  with g0 have "grows s (final (case item of
                  Triage t \<Rightarrow> triageInput w t ?s0
                | Candidate prg minimized \<Rightarrow>
                    (case execute w (execOpts ?s0) prg False minimized True False
                            StatCandidate ?s0 of
                       Inl e \<Rightarrow> Inl e
                     | Inr (info, s1) \<Rightarrow> Inr ((), s1))
                | Smash prg call \<Rightarrow> smashInput w prg call ?s0))"
    by (rule grows_trans)
  with Some x show ?thesis
    by (simp add: loop_body_def Let_def)
qed

lemma loop_grows: "signal_inv s \<Longrightarrow> grows s (final (loop w n i s))"
proof (induction n arbitrary: i s)
  case 0
  then show ?case by (simp add: grows_refl)
next
  case (Suc n)
  from loop_body_grows[OF Suc.prems] have g: "grows s (final (loop_body w i s))" .
  show ?case
  proof (cases "loop_body w i s")
    case (Inl a)
    obtain e s1 where "a = (e, s1)" by (cases a)
    with Inl g show ?thesis by simp
  next
    case (Inr b)
    obtain path s1 where b: "b = (path, s1)" by (cases b)
    with Inr g have g1: "grows s s1" by simp
    then have "signal_inv s1" by (simp add: grows_def)
    from Suc.IH[OF this] g1 have "grows s (final (loop w n (i + 1) s1))"
      by (rule grows_trans[rotated])
    with Inr b show ?thesis by simp
  qed
qed


subsection \<open>C1: corpus signal and new signal stay within max signal\<close>

text \<open>Claim C1. From a state in which corpus signal and new signal are within max signal
  and every waiting triage item carries a signal within max signal (so from the initial
  state, and from every state the worker reaches), the same holds after
  \<^verbatim>\<open>execute\<close> with its loop over the results, after \<^verbatim>\<open>triageInput\<close> on an item
  whose signal is within max signal, and after any number of passes of the worker loop,
  whether the worker returned or panicked. It also holds between the two
  \<^verbatim>\<open>SignalAdd\<close> of the loop over the results, where max signal has the difference
  and new signal not yet.\<close>

theorem signals_stay_within_max:
  assumes "signal_inv s"
  shows "signal_inv (final (execute w eo prg needComps mi ca noCollide stat s))
       \<and> (set (t_signal item) \<subseteq> maxSignal s \<longrightarrow> signal_inv (final (triageInput w item s)))
       \<and> signal_inv (final (loop w n i s))
       \<and> corpusSignal (final (loop w n i s)) \<subseteq> maxSignal (final (loop w n i s))
       \<and> newSignal (final (loop w n i s)) \<subseteq> maxSignal (final (loop w n i s))
       \<and> corpusSignal s \<subseteq> SignalAdd (maxSignal s) (SignalDiff (maxSignal s) sg)
       \<and> newSignal s \<subseteq> SignalAdd (maxSignal s) (SignalDiff (maxSignal s) sg)"
proof -
  from execute_grows[OF assms]
  have a: "signal_inv (final (execute w eo prg needComps mi ca noCollide stat s))"
    by (simp add: grows_def)
  have b: "set (t_signal item) \<subseteq> maxSignal s \<longrightarrow> signal_inv (final (triageInput w item s))"
    using triageInput_grows[OF assms] by (simp add: grows_def)
  from loop_grows[OF assms] have c: "signal_inv (final (loop w n i s))"
    by (simp add: grows_def)
  from assms have d: "corpusSignal s \<subseteq> SignalAdd (maxSignal s) (SignalDiff (maxSignal s) sg)"
      "newSignal s \<subseteq> SignalAdd (maxSignal s) (SignalDiff (maxSignal s) sg)"
    by (auto simp: signal_inv_def SignalAdd_def)
  from a b c d show ?thesis by (simp add: signal_inv_def)
qed

theorem signals_stay_within_max_witness:
  "signal_inv s0
   \<and> maxSignal (final (execute steady_world opts0 prg1 False False False False StatGenerate s0))
       = {1, 2, 3}
   \<and> signal_inv (final (execute steady_world opts0 prg1 False False False False StatGenerate s0))
   \<and> corpusSignal (final (loop steady_world 5 0 s0)) \<subseteq> maxSignal (final (loop steady_world 5 0 s0))
   \<and> newSignal (final (loop steady_world 5 0 s0)) \<subseteq> maxSignal (final (loop steady_world 5 0 s0))"
proof -
  have i0: "signal_inv s0" by (simp add: signal_inv_def s0_def)
  have st: "settled (Exec steady_world t (exec_opts opts0 False False) prg)" for t prg
    by (simp add: steady_world_def world_of_def answer_def settled_def)
  have ri: "result_info (Exec steady_world t (exec_opts opts0 False False) prg) = sig_info [1, 2, 3]"
    for t prg
    by (simp add: steady_world_def world_of_def answer_def result_info_def)
  have d: "FlagDedupCover \<in> Flags (exec_opts opts0 False False)"
    by (simp add: exec_opts_def opts0_def)
  have m0: "maxSignal s0 = {}" by (simp add: s0_def)
  have "maxSignal (final (execute steady_world opts0 prg1 False False False False StatGenerate s0))
       = {1, 2, 3}"
    by (auto simp add: execute_settled[OF _ d st] ri sig_info_def elems_def SignalNew_def
        SignalDiff_def SignalAdd_def Let_def m0)
  with i0 signals_stay_within_max[OF i0, of steady_world opts0 prg1 False False False False
      StatGenerate item0 5 0 "[]"]
  show ?thesis by simp
qed

end
